theory Spec2Isabelle
  imports
    Main
    "HOL-Library.Sublist"
    "HOL-Library.Char_ord"
    "HOL-Library.List_Lexorder"
    "HOL-Library.AList"
    "HOL-Library.Multiset"
begin

section \<open>git_map_branches.py: branch topology and aligned rendering\<close>

text \<open>
  A shallow embedding of \<^verbatim>\<open>depot_tools/git_map_branches.py\<close>. Python exceptions are
  values of \<open>error\<close>; every function that can raise returns \<open>error + 'a\<close> with the
  exception on the left. Python strings are byte strings (\<open>string\<close>).
\<close>

datatype error =
    KeyError | TypeError | AssertionError | IndexError | CalledProcessError | StopIteration

subsection \<open>Constants\<close>

definition DEFAULT_SEPARATOR :: string where
  "DEFAULT_SEPARATOR = replicate 4 (CHR '' '')"

text \<open>
  The colour constants come from \<^verbatim>\<open>third_party.colorama\<close>, which is not among the
  sources; they are the ANSI SGR sequences \<^verbatim>\<open>ESC [ n m\<close> that colorama defines.
\<close>

definition ESC :: char where
  "ESC = CHR 0x1B"

definition Fore_RED :: string where "Fore_RED = ESC # ''[31m''"
definition Fore_GREEN :: string where "Fore_GREEN = ESC # ''[32m''"
definition Fore_BLUE :: string where "Fore_BLUE = ESC # ''[34m''"
definition Fore_MAGENTA :: string where "Fore_MAGENTA = ESC # ''[35m''"
definition Fore_CYAN :: string where "Fore_CYAN = ESC # ''[36m''"
definition Fore_WHITE :: string where "Fore_WHITE = ESC # ''[37m''"
definition Style_BRIGHT :: string where "Style_BRIGHT = ESC # ''[1m''"
definition Style_NORMAL :: string where "Style_NORMAL = ESC # ''[22m''"

subsection \<open>Python string helpers\<close>

definition isspace :: "char \<Rightarrow> bool" where
  "isspace c \<longleftrightarrow> c \<in> {CHR '' '', CHR 0x09, CHR 0x0A, CHR 0x0B, CHR 0x0C, CHR 0x0D}"

definition rstrip :: "string \<Rightarrow> string" where
  "rstrip s = rev (dropWhile isspace (rev s))"

fun join :: "string \<Rightarrow> string list \<Rightarrow> string" where
  "join sep [] = []"
| "join sep [x] = x"
| "join sep (x # y # ys) = x @ sep @ join sep (y # ys)"

definition digit_char :: "nat \<Rightarrow> char" where
  "digit_char d = char_of (48 + d)"

fun nat_digits :: "nat \<Rightarrow> string" where
  "nat_digits n =
     (if n < 10 then [digit_char n] else nat_digits (n div 10) @ [digit_char (n mod 10)])"

declare nat_digits.simps [simp del]

definition format_d :: "int \<Rightarrow> string" where
  \<comment> \<open>\<^verbatim>\<open>'%d' % n\<close>\<close>
  "format_d n = (if n < 0 then CHR ''-'' # nat_digits (nat (- n)) else nat_digits (nat n))"

definition truthy :: "string option \<Rightarrow> bool" where
  \<comment> \<open>Python truth value of a value that is \<^verbatim>\<open>None\<close> or a string\<close>
  "truthy s \<longleftrightarrow> (case s of None \<Rightarrow> False | Some t \<Rightarrow> t \<noteq> [])"

definition nonzero :: "int option \<Rightarrow> bool" where
  \<comment> \<open>Python truth value of a value that is \<^verbatim>\<open>None\<close> or an integer\<close>
  "nonzero n \<longleftrightarrow> (case n of None \<Rightarrow> False | Some k \<Rightarrow> k \<noteq> 0)"

subsection \<open>OutputLine\<close>

record OutputLine =
  columns :: "string list"
  separators :: "string list"
  colors :: "string list"

definition OutputLine_init :: OutputLine where
  "OutputLine_init = \<lparr>columns = [], separators = [], colors = []\<rparr>"

definition OutputLine_append :: "OutputLine \<Rightarrow> string \<Rightarrow> string \<Rightarrow> string \<Rightarrow> OutputLine" where
  "OutputLine_append line data separator color =
     line\<lparr>columns := columns line @ [data],
          separators := separators line @ [separator],
          colors := colors line @ [color]\<rparr>"

text \<open>
  The loop of \<^verbatim>\<open>as_padded_string\<close> over \<^verbatim>\<open>enumerate(zip(colors, columns, separators))\<close>;
  \<open>i\<close> is the index, \<open>output_string\<close> the accumulator. Reading
  \<^verbatim>\<open>max_column_lengths[i]\<close> beyond the list raises.
\<close>

fun padded_loop ::
  "nat list \<Rightarrow> nat \<Rightarrow> (string \<times> string \<times> string) list \<Rightarrow> string \<Rightarrow> error + string" where
  "padded_loop mcl i [] output_string = Inr output_string"
| "padded_loop mcl i ((color, data, separator) # rest) output_string =
     (if length mcl \<le> i then Inl IndexError
      else if mcl ! i = 0 then padded_loop mcl (Suc i) rest output_string
      else padded_loop mcl (Suc i) rest
             (output_string @ color @ data
                @ replicate (mcl ! i - length data) (CHR '' '') @ separator))"

definition as_padded_string :: "OutputLine \<Rightarrow> nat list \<Rightarrow> error + string" where
  "as_padded_string line max_column_lengths =
     (case padded_loop max_column_lengths 0
             (zip (colors line) (zip (columns line) (separators line))) [] of
        Inl e \<Rightarrow> Inl e
      | Inr output_string \<Rightarrow> Inr (rstrip output_string))"

subsection \<open>OutputManager\<close>

record OutputManager =
  lines :: "OutputLine list"
  nocolor :: bool
  max_column_lengths :: "nat list"
  num_columns :: "nat option"

definition OutputManager_init :: OutputManager where
  "OutputManager_init =
     \<lparr>lines = [], nocolor = False, max_column_lengths = [], num_columns = None\<rparr>"

text \<open>The loop \<^verbatim>\<open>for i, col in enumerate(line.columns)\<close> of \<^verbatim>\<open>OutputManager.append\<close>.\<close>

fun update_max :: "nat list \<Rightarrow> nat \<Rightarrow> string list \<Rightarrow> error + nat list" where
  "update_max mcl i [] = Inr mcl"
| "update_max mcl i (col # cols) =
     (if length mcl \<le> i then Inl IndexError
      else update_max (mcl[i := max (mcl ! i) (length col)]) (Suc i) cols)"

definition OutputManager_append :: "OutputManager \<Rightarrow> OutputLine \<Rightarrow> error + OutputManager" where
  "OutputManager_append om line =
     (let om1 = (if num_columns om = None \<or> num_columns om = Some 0
                 then om\<lparr>num_columns := Some (length (columns line)),
                         max_column_lengths := replicate (length (columns line)) 0\<rparr>
                 else om)
      in if num_columns om1 \<noteq> Some (length (columns line)) then Inl AssertionError
         else
           let line1 = (if nocolor om1
                        then line\<lparr>colors := replicate (the (num_columns om1)) []\<rparr>
                        else line);
               om2 = om1\<lparr>lines := lines om1 @ [line1]\<rparr>
           in case update_max (max_column_lengths om2) 0 (columns line1) of
                Inl e \<Rightarrow> Inl e
              | Inr mcl \<Rightarrow> Inr (om2\<lparr>max_column_lengths := mcl\<rparr>))"

fun padded_lines :: "nat list \<Rightarrow> OutputLine list \<Rightarrow> error + string list" where
  "padded_lines mcl [] = Inr []"
| "padded_lines mcl (l # ls) =
     (case as_padded_string l mcl of
        Inl e \<Rightarrow> Inl e
      | Inr s \<Rightarrow> (case padded_lines mcl ls of Inl e \<Rightarrow> Inl e | Inr ss \<Rightarrow> Inr (s # ss)))"

definition as_formatted_string :: "OutputManager \<Rightarrow> error + string" where
  "as_formatted_string om =
     (case padded_lines (max_column_lengths om) (lines om) of
        Inl e \<Rightarrow> Inl e
      | Inr ss \<Rightarrow> Inr (join [CHR 0x0A] ss))"

subsection \<open>Collaborators and the BranchMapper state\<close>

text \<open>The named tuple that \<^verbatim>\<open>get_branches_info\<close> stores for a local branch.\<close>

record BranchesInfo =
  hash :: string
  upstream :: string
  ahead :: "int option"
  behind :: "int option"

text \<open>
  The functions imported from \<^verbatim>\<open>git_common\<close> and \<^verbatim>\<open>git_cl\<close> run git or query the
  review server; they are parameters of the model. A dictionary is an association list
  (its order is the iteration order), \<^verbatim>\<open>None\<close> where a call returns nothing or, for
  \<open>git_hash_one\<close> and \<open>git_log_subject\<close>, where it raises \<^verbatim>\<open>CalledProcessError\<close>.
\<close>

record git =
  git_branches_info :: "bool \<Rightarrow> (string \<times> BranchesInfo option) list"
  git_upstream :: "string \<Rightarrow> string option"
  git_hash_one :: "string \<Rightarrow> string option"
  git_current_branch :: "string option"
  git_tags :: "string list"
  git_log_subject :: "string \<Rightarrow> string option"
  cl_statuses :: "string list \<Rightarrow> bool \<Rightarrow> int option \<Rightarrow> (string \<times> string option \<times> string) list"
  cl_color_for_status :: "string \<Rightarrow> string"

text \<open>
  The attributes of \<^verbatim>\<open>BranchMapper\<close>. \<open>visited\<close> is a history variable that the source
  does not have: it records the arguments \<open>(branch, depth)\<close> of every call of
  \<^verbatim>\<open>__append_branch\<close> that appended its row, in order.
\<close>

record BranchMapper =
  verbosity :: nat
  maxjobs :: "int option"
  show_subject :: bool
  output_manager :: OutputManager
  gone_branches :: "string set"
  branches_info :: "(string \<times> BranchesInfo option) list"
  parent_map :: "(string \<times> string list) list"
  current_branch :: "string option"
  current_hash :: string
  tag_set :: "string list"
  status_info :: "string \<rightharpoonup> (string option \<times> string)"
  visited :: "(string \<times> nat) list"

definition BranchMapper_init :: BranchMapper where
  "BranchMapper_init =
     \<lparr>verbosity = 0, maxjobs = None, show_subject = False, output_manager = OutputManager_init,
      gone_branches = {}, branches_info = [], parent_map = [], current_branch = None,
      current_hash = [], tag_set = [], status_info = Map.empty, visited = []\<rparr>"

definition getitem :: "('k \<times> 'v) list \<Rightarrow> 'k \<Rightarrow> error + 'v" where
  \<comment> \<open>\<^verbatim>\<open>d[k]\<close> on a dict\<close>
  "getitem d k = (case map_of d k of None \<Rightarrow> Inl KeyError | Some v \<Rightarrow> Inr v)"

definition children_of :: "(string \<times> string list) list \<Rightarrow> string \<Rightarrow> string list" where
  \<comment> \<open>the list under a key of the \<^verbatim>\<open>defaultdict(list)\<close>, empty when the key is absent\<close>
  "children_of pm k = (case map_of pm k of None \<Rightarrow> [] | Some cs \<Rightarrow> cs)"

definition is_invalid_parent :: "BranchMapper \<Rightarrow> string \<Rightarrow> bool" where
  "is_invalid_parent m parent \<longleftrightarrow> parent = [] \<or> parent \<in> gone_branches m"

definition color_for_branch :: "BranchMapper \<Rightarrow> string \<Rightarrow> string option \<Rightarrow> error + string" where
  "color_for_branch m branch branch_hash =
     (case (if prefix ''origin'' branch then Inr Fore_RED
            else if prefix ''branch-heads'' branch then Inr Fore_BLUE
            else if is_invalid_parent m branch \<or> branch \<in> set (tag_set m) then Inr Fore_MAGENTA
            else (case branch_hash of
                    None \<Rightarrow> Inl TypeError
                  | Some h \<Rightarrow> if prefix h (current_hash m) then Inr Fore_CYAN else Inr Fore_GREEN)) of
        Inl e \<Rightarrow> Inl e
      | Inr color \<Rightarrow>
          if truthy branch_hash \<and> prefix (the branch_hash) (current_hash m)
          then Inr (color @ Style_BRIGHT)
          else Inr (color @ Style_NORMAL))"

subsection \<open>The blocks of \<^verbatim>\<open>__append_branch\<close> that build one row\<close>

definition branch_hash_of :: "git \<Rightarrow> BranchMapper \<Rightarrow> string \<Rightarrow> error + string option" where
  \<comment> \<open>lines 198 to 205\<close>
  "branch_hash_of env m branch =
     (case getitem (branches_info m) branch of
        Inl e \<Rightarrow> Inl e
      | Inr branch_info \<Rightarrow>
          (case branch_info of
             Some info \<Rightarrow> Inr (Some (hash info))
           | None \<Rightarrow> Inr (git_hash_one env branch)))"

definition main_string :: "BranchMapper \<Rightarrow> string \<Rightarrow> nat \<Rightarrow> string" where
  \<comment> \<open>lines 210 to 219\<close>
  "main_string m branch depth =
     (let suffix = (if Some branch = current_branch m
                       \<or> (current_branch m = Some ''HEAD'' \<and> branch = current_hash m)
                    then '' *'' else []);
          branch_string = branch;
          branch_string = (if branch \<in> gone_branches m
                           then ''{'' @ branch @ '':GONE}'' else branch_string);
          branch_string = (if branch = [] then ''{NO_UPSTREAM}'' else branch_string)
      in concat (replicate depth ''  '') @ branch_string @ suffix)"

definition tracking_columns :: "BranchMapper \<Rightarrow> BranchesInfo option \<Rightarrow> OutputLine \<Rightarrow> OutputLine" where
  \<comment> \<open>lines 230 to 255, the body of \<^verbatim>\<open>if self.verbosity >= 1\<close>\<close>
  "tracking_columns m branch_info line =
     (let valid = (case branch_info of
                     None \<Rightarrow> False
                   | Some info \<Rightarrow> \<not> is_invalid_parent m (upstream info));
          a = (case branch_info of None \<Rightarrow> None | Some info \<Rightarrow> ahead info);
          b = (case branch_info of None \<Rightarrow> None | Some info \<Rightarrow> behind info);
          ahead_string = (if valid \<and> nonzero a then ''ahead '' @ format_d (the a) else []);
          behind_string = (if valid \<and> nonzero b then ''behind '' @ format_d (the b) else []);
          front_separator = (if valid \<and> (nonzero a \<or> nonzero b) then ''['' else []);
          back_separator = (if valid \<and> (nonzero a \<or> nonzero b) then '']'' else []);
          center_separator = (if valid \<and> nonzero a \<and> nonzero b then ''|'' else []);
          line = OutputLine_append line front_separator '' '' Fore_WHITE;
          line = OutputLine_append line ahead_string '' '' Fore_MAGENTA;
          line = OutputLine_append line center_separator '' '' Fore_WHITE;
          line = OutputLine_append line behind_string '' '' Fore_MAGENTA;
          line = OutputLine_append line back_separator DEFAULT_SEPARATOR Fore_WHITE
      in line)"

definition review_column :: "BranchMapper \<Rightarrow> string \<Rightarrow> OutputLine \<Rightarrow> error + OutputLine" where
  \<comment> \<open>lines 259 to 261, the body of the second \<^verbatim>\<open>if self.verbosity >= 2\<close>\<close>
  "review_column m branch line =
     (let none_text = (if is_invalid_parent m branch then [] else ''None'')
      in case status_info m branch of
           None \<Rightarrow> Inl KeyError
         | Some (url, color) \<Rightarrow>
             Inr (OutputLine_append line (if truthy url then the url else none_text)
                    DEFAULT_SEPARATOR color))"

definition build_line :: "git \<Rightarrow> BranchMapper \<Rightarrow> string \<Rightarrow> nat \<Rightarrow> error + OutputLine" where
  \<comment> \<open>lines 198 to 265: the row of one branch\<close>
  "build_line env m branch depth =
     (case getitem (branches_info m) branch of
        Inl e \<Rightarrow> Inl e
      | Inr branch_info \<Rightarrow>
     (case branch_hash_of env m branch of
        Inl e \<Rightarrow> Inl e
      | Inr branch_hash \<Rightarrow>
     (case color_for_branch m branch branch_hash of
        Inl e \<Rightarrow> Inl e
      | Inr color \<Rightarrow>
          let line = OutputLine_append OutputLine_init (main_string m branch depth)
                       DEFAULT_SEPARATOR color;
              line = (if 2 \<le> verbosity m
                      then OutputLine_append line
                             (if truthy branch_hash then the branch_hash else []) '' '' Fore_RED
                      else line);
              line = (if 1 \<le> verbosity m then tracking_columns m branch_info line else line)
          in (case (if 2 \<le> verbosity m then review_column m branch line else Inr line) of
                Inl e \<Rightarrow> Inl e
              | Inr line \<Rightarrow>
                  if show_subject m
                  then (case git_log_subject env branch of
                          None \<Rightarrow> Inl CalledProcessError
                        | Some subject \<Rightarrow>
                            Inr (OutputLine_append line subject DEFAULT_SEPARATOR Fore_WHITE))
                  else Inr line))))"

subsection \<open>The traversal\<close>

text \<open>
  \<^verbatim>\<open>__append_branch\<close>, and the loop \<^verbatim>\<open>for child in sorted(...): self.__append_branch(child, ...)\<close>
  that calls it (line 269 with the popped children, line 166 with the roots). The state
  is threaded through: \<^verbatim>\<open>pop\<close> removes the key from the parent map.
\<close>

function append_branch :: "git \<Rightarrow> BranchMapper \<Rightarrow> string \<Rightarrow> nat \<Rightarrow> error + BranchMapper"
  and append_branches :: "git \<Rightarrow> BranchMapper \<Rightarrow> string list \<Rightarrow> nat \<Rightarrow> error + BranchMapper"
where
  "append_branch env m branch depth =
     (case build_line env m branch depth of
        Inl e \<Rightarrow> Inl e
      | Inr line \<Rightarrow>
          (case OutputManager_append (output_manager m) line of
             Inl e \<Rightarrow> Inl e
           | Inr om \<Rightarrow>
               append_branches env
                 (m\<lparr>output_manager := om, visited := visited m @ [(branch, depth)],
                    parent_map := AList.delete branch (parent_map m)\<rparr>)
                 (sort (children_of (parent_map m) branch)) (depth + 1)))"
| "append_branches env m [] depth = Inr m"
| "append_branches env m (child # rest) depth =
     (case append_branch env m child depth of
        Inl e \<Rightarrow> Inl e
      | Inr m' \<Rightarrow> append_branches env m' rest depth)"
  by pat_completeness auto

subsection \<open>\<^verbatim>\<open>BranchMapper.start\<close>\<close>

text \<open>
  The loop of lines 135 to 139: \<open>n\<close> blocking reads from the iterator of
  \<^verbatim>\<open>get_cl_statuses\<close>; \<^verbatim>\<open>next()\<close> on an exhausted iterator raises.
\<close>

fun fetch_statuses ::
  "git \<Rightarrow> nat \<Rightarrow> (string \<times> string option \<times> string) list
     \<Rightarrow> (string \<rightharpoonup> (string option \<times> string)) \<Rightarrow> error + (string \<rightharpoonup> (string option \<times> string))" where
  "fetch_statuses env 0 it si = Inr si"
| "fetch_statuses env (Suc n) [] si = Inl StopIteration"
| "fetch_statuses env (Suc n) ((branch, url, status) # it) si =
     fetch_statuses env n it (si(branch \<mapsto> (url, cl_color_for_status env status)))"

text \<open>
  The body of the loop of lines 144 to 159. \<open>roots\<close> is the local set, kept as a list
  without duplicates.
\<close>

definition build_step ::
  "git \<Rightarrow> string list \<times> BranchMapper \<Rightarrow> string \<times> BranchesInfo option
     \<Rightarrow> error + (string list \<times> BranchMapper)" where
  "build_step env rm item =
     (case rm of (roots, m) \<Rightarrow>
      case item of (branch, branch_info) \<Rightarrow>
        (case branch_info of
           None \<Rightarrow> Inr (roots, m)
         | Some info \<Rightarrow>
             let parent = upstream info
             in (case getitem (branches_info m) parent of
                   Inl e \<Rightarrow> Inl e
                 | Inr parent_info \<Rightarrow>
                     let (parent, roots, m) =
                           (if parent_info = None
                            then let branch_upstream = git_upstream env branch;
                                     parent' = (if truthy branch_upstream
                                                then the branch_upstream else parent);
                                     m' = (if truthy branch_upstream then m
                                           else m\<lparr>gone_branches :=
                                                    insert parent (gone_branches m)\<rparr>)
                                 in (parent', List.insert parent' roots, m')
                            else (parent, roots, m))
                     in Inr (roots,
                             m\<lparr>parent_map :=
                                 AList.update parent
                                   (children_of (parent_map m) parent @ [branch])
                                   (parent_map m)\<rparr>))))"

fun build_loop ::
  "git \<Rightarrow> string list \<times> BranchMapper \<Rightarrow> (string \<times> BranchesInfo option) list
     \<Rightarrow> error + (string list \<times> BranchMapper)" where
  "build_loop env rm [] = Inr rm"
| "build_loop env rm (item # items) =
     (case build_step env rm item of
        Inl e \<Rightarrow> Inl e
      | Inr rm' \<Rightarrow> build_loop env rm' items)"

definition no_branches :: OutputLine where
  "no_branches = OutputLine_append OutputLine_init ''No User Branches'' DEFAULT_SEPARATOR Fore_WHITE"

definition start :: "git \<Rightarrow> BranchMapper \<Rightarrow> error + BranchMapper" where
  "start env m0 =
     (let m = m0\<lparr>branches_info := git_branches_info env (1 \<le> verbosity m0)\<rparr>
      in case (if 2 \<le> verbosity m
               then fetch_statuses env (length (branches_info m))
                      (cl_statuses env (map fst (branches_info m)) (2 < verbosity m) (maxjobs m))
                      (status_info m)
               else Inr (status_info m)) of
           Inl e \<Rightarrow> Inl e
         | Inr si \<Rightarrow>
        (case build_loop env ([], m\<lparr>status_info := si\<rparr>) (branches_info m) of
           Inl e \<Rightarrow> Inl e
         | Inr (roots, m) \<Rightarrow>
        (case git_hash_one env ''HEAD'' of
           None \<Rightarrow> Inl CalledProcessError
         | Some head \<Rightarrow>
             let m = m\<lparr>current_branch := git_current_branch env,
                       current_hash := head,
                       tag_set := git_tags env\<rparr>
             in if roots \<noteq> [] then append_branches env m (sort roots) 0
                else (case OutputManager_append (output_manager m) no_branches of
                        Inl e \<Rightarrow> Inl e
                      | Inr om \<Rightarrow> Inr (m\<lparr>output_manager := om\<rparr>)))))"

text \<open>
  \<^verbatim>\<open>main\<close> after argument parsing: \<open>v\<close> is the count of \<^verbatim>\<open>-v\<close> (absent counts as 0,
  as every comparison of \<^verbatim>\<open>None\<close> with a number fails in Python 2).
\<close>

definition mapper_of_opts :: "nat \<Rightarrow> bool \<Rightarrow> int option \<Rightarrow> bool \<Rightarrow> BranchMapper" where
  "mapper_of_opts v nc mj ss =
     BranchMapper_init
       \<lparr>verbosity := v,
        maxjobs := mj,
        show_subject := ss,
        output_manager := (output_manager BranchMapper_init)\<lparr>nocolor := nc\<rparr>\<rparr>"

definition main :: "git \<Rightarrow> nat \<Rightarrow> bool \<Rightarrow> int option \<Rightarrow> bool \<Rightarrow> error + string" where
  "main env v nc mj ss =
     (case start env (mapper_of_opts v nc mj ss) of
        Inl e \<Rightarrow> Inl e
      | Inr mapper \<Rightarrow> as_formatted_string (output_manager mapper))"

subsection \<open>Derived notions used in the statements\<close>

text \<open>The number of cells that \<open>build_line\<close> appends under a given configuration.\<close>

definition num_cells :: "BranchMapper \<Rightarrow> nat" where
  "num_cells m = 1 + (if 2 \<le> verbosity m then 1 else 0) + (if 1 \<le> verbosity m then 5 else 0)
                 + (if 2 \<le> verbosity m then 1 else 0) + (if show_subject m then 1 else 0)"

text \<open>
  The state of an output manager all of whose rows have \<open>k\<close> cells: either nothing was
  appended yet, or the column count and the width list are set for \<open>k\<close> columns.
\<close>

definition rows_consistent :: "nat \<Rightarrow> OutputManager \<Rightarrow> bool" where
  "rows_consistent k om \<longleftrightarrow>
     (\<forall>l \<in> set (lines om). length (columns l) = k) \<and>
     (num_columns om = None \<and> lines om = []
      \<or> num_columns om = Some k \<and> length (max_column_lengths om) = k)"

text \<open>The text of a table that holds one row, without colours.\<close>

definition render_row :: "OutputLine \<Rightarrow> error + string" where
  "render_row line =
     (case OutputManager_append (OutputManager_init\<lparr>nocolor := True\<rparr>) line of
        Inl e \<Rightarrow> Inl e
      | Inr om \<Rightarrow> as_formatted_string om)"

subsection \<open>Colour codes in a text\<close>

text \<open>
  The comparison of the coloured with the uncoloured table needs a notion the source does
  not have: a text with its colour escape sequences removed. A sequence starts with
  \<^verbatim>\<open>ESC [\<close> and ends with the next \<^verbatim>\<open>m\<close>.
\<close>

fun strip_colors :: "string \<Rightarrow> string"
  and in_sgr :: "string \<Rightarrow> string" where
  "strip_colors [] = []"
| "strip_colors (c # cs) =
     (if c = ESC \<and> take 1 cs = ''['' then in_sgr (drop 1 cs) else c # strip_colors cs)"
| "in_sgr [] = []"
| "in_sgr (c # cs) = (if c = CHR ''m'' then strip_colors cs else in_sgr cs)"

text \<open>
  A colour tag is a concatenation of sequences \<^verbatim>\<open>ESC [ params m\<close>, the parameters being
  digits and semicolons; colorama's constants and their sums are of this form.
\<close>

fun is_color :: "string \<Rightarrow> bool"
  and in_params :: "string \<Rightarrow> bool" where
  "is_color [] \<longleftrightarrow> True"
| "is_color (c # cs) \<longleftrightarrow> c = ESC \<and> take 1 cs = ''['' \<and> in_params (drop 1 cs)"
| "in_params [] \<longleftrightarrow> False"
| "in_params (c # cs) \<longleftrightarrow>
     (if c = CHR ''m'' then is_color cs else c \<in> set ''0123456789;'' \<and> in_params cs)"

text \<open>
  A row as \<^verbatim>\<open>OutputLine.append\<close> builds it, with colour tags for colours and no escape
  character in the texts and separators.
\<close>

definition well_formed_row :: "OutputLine \<Rightarrow> bool" where
  "well_formed_row l \<longleftrightarrow>
     length (colors l) = length (columns l) \<and>
     list_all is_color (colors l) \<and>
     list_all (\<lambda>d. ESC \<notin> set d) (columns l) \<and>
     list_all (\<lambda>s. ESC \<notin> set s) (separators l)"

text \<open>Appending a sequence of rows to an output manager, one call after the other.\<close>

fun append_all :: "OutputManager \<Rightarrow> OutputLine list \<Rightarrow> error + OutputManager" where
  "append_all om [] = Inr om"
| "append_all om (l # ls) =
     (case OutputManager_append om l of Inl e \<Rightarrow> Inl e | Inr om' \<Rightarrow> append_all om' ls)"

text \<open>A row, and a manager, after the no-colour mode has erased the colours.\<close>

definition blank :: "OutputLine \<Rightarrow> OutputLine" where
  "blank l = l\<lparr>colors := replicate (length (columns l)) []\<rparr>"

definition decolor :: "OutputManager \<Rightarrow> OutputManager" where
  "decolor om = om\<lparr>nocolor := True, lines := map blank (lines om)\<rparr>"

subsection \<open>The forest\<close>

text \<open>All the children that the parent map holds, over all its keys.\<close>

definition all_children :: "(string \<times> string list) list \<Rightarrow> string list" where
  "all_children pm = concat (map snd pm)"

text \<open>The names with a non-empty entry in the bulk mapping: the local branches.\<close>

definition local_names :: "(string \<times> BranchesInfo option) list \<Rightarrow> string list" where
  "local_names bi = map fst (filter (\<lambda>e. snd e \<noteq> None) bi)"

definition has_info :: "(string \<times> BranchesInfo option) list \<Rightarrow> string \<Rightarrow> bool" where
  "has_info bi n \<longleftrightarrow> (case map_of bi n of Some (Some info) \<Rightarrow> True | _ \<Rightarrow> False)"

text \<open>
  Wherever the builder consults the single-branch lookup and takes its answer as the
  parent, the answer is a name without a non-empty entry in the bulk mapping.
\<close>

definition live_parents_external :: "git \<Rightarrow> (string \<times> BranchesInfo option) list \<Rightarrow> bool" where
  "live_parents_external env bi \<longleftrightarrow>
     list_all
       (\<lambda>(b, i). case i of
                   None \<Rightarrow> True
                 | Some info \<Rightarrow>
                     map_of bi (upstream info) = Some None \<longrightarrow>
                     truthy (git_upstream env b) \<longrightarrow>
                     \<not> has_info bi (the (git_upstream env b)))
       bi"

text \<open>
  The names reached from the roots \<open>rs\<close> by going from a parent to its children in the
  parent map \<open>pm\<close>.
\<close>

inductive reached :: "(string \<times> string list) list \<Rightarrow> string list \<Rightarrow> string \<Rightarrow> bool"
  for pm :: "(string \<times> string list) list" and rs :: "string list" where
  root: "r \<in> set rs \<Longrightarrow> reached pm rs r"
| child: "reached pm rs p \<Longrightarrow> c \<in> set (children_of pm p) \<Longrightarrow> reached pm rs c"

code_pred reached .

text \<open>
  The parent that the builder chooses for a local branch: the answer of the single-branch
  lookup when the recorded upstream has an empty entry and the answer is not empty, the
  recorded upstream otherwise.
\<close>

definition resolved_parent ::
  "git \<Rightarrow> (string \<times> BranchesInfo option) list \<Rightarrow> string \<Rightarrow> BranchesInfo \<Rightarrow> string" where
  "resolved_parent env bi branch info =
     (if map_of bi (upstream info) = Some None \<and> truthy (git_upstream env branch)
      then the (git_upstream env branch) else upstream info)"

text \<open>
  The rows of the table are the rows of the visited nodes, in order: the first cell of
  each row is the name text of the node at its depth.
\<close>

definition names_match_rows :: "BranchMapper \<Rightarrow> bool" where
  "names_match_rows m \<longleftrightarrow>
     map (hd \<circ> columns) (lines (output_manager m))
       = map (\<lambda>(b, d). main_string m b d) (visited m)"

subsection \<open>Example repositories\<close>

text \<open>A git that knows nothing, and a mapper in which the empty name has been marked gone.\<close>

definition quiet_git :: git where
  "quiet_git = \<lparr>git_branches_info = (\<lambda>_. []), git_upstream = (\<lambda>_. None),
      git_hash_one = (\<lambda>_. None), git_current_branch = None, git_tags = [],
      git_log_subject = (\<lambda>_. None), cl_statuses = (\<lambda>_ _ _. []),
      cl_color_for_status = (\<lambda>_. [])\<rparr>"

definition gone_empty_mapper :: BranchMapper where
  "gone_empty_mapper = BranchMapper_init\<lparr>branches_info := [([], None)], gone_branches := {[]}\<rparr>"

text \<open>A repository with one branch \<^verbatim>\<open>feature\<close> that tracks \<^verbatim>\<open>origin/master\<close>.\<close>

definition tracked :: "int option \<Rightarrow> int option \<Rightarrow> BranchesInfo" where
  "tracked a b = \<lparr>hash = ''abc1234'', upstream = ''origin/master'', ahead = a, behind = b\<rparr>"

definition feature_git :: git where
  "feature_git =
     \<lparr>git_branches_info =
        (\<lambda>_. [(''feature'', Some (tracked (Some 3) (Some 0))), (''origin/master'', None)]),
      git_upstream = (\<lambda>b. if b = ''feature'' then Some ''origin/master'' else None),
      git_hash_one = (\<lambda>b. if b = ''HEAD'' then Some ''fff0000''
                         else if b = ''origin/master'' then Some ''def5678'' else None),
      git_current_branch = Some ''feature'',
      git_tags = [],
      git_log_subject = (\<lambda>_. Some ''subject''),
      cl_statuses = (\<lambda>ks _ _. map (\<lambda>k. (k, None, ''waiting'')) ks),
      cl_color_for_status = (\<lambda>_. Fore_WHITE)\<rparr>"

text \<open>
  A repository whose branch \<^verbatim>\<open>feature\<close> tracks a branch that git no longer finds, and the
  mapper as \<open>start\<close> leaves it there at verbosity 2.
\<close>

definition gone_git :: git where
  "gone_git =
     \<lparr>git_branches_info =
        (\<lambda>_. [(''feature'', Some \<lparr>hash = ''abc1234'', upstream = ''missing'',
                                  ahead = None, behind = None\<rparr>),
              (''missing'', None)]),
      git_upstream = (\<lambda>_. None),
      git_hash_one = (\<lambda>b. if b = ''HEAD'' then Some ''fff0000'' else None),
      git_current_branch = Some ''HEAD'',
      git_tags = [],
      git_log_subject = (\<lambda>_. Some ''subject''),
      cl_statuses = (\<lambda>ks _ _. map (\<lambda>k. (k, None, ''waiting'')) ks),
      cl_color_for_status = (\<lambda>_. Fore_WHITE)\<rparr>"

definition gone_mapper :: BranchMapper where
  "gone_mapper =
     BranchMapper_init
       \<lparr>verbosity := 2,
        branches_info := git_branches_info gone_git True,
        gone_branches := {''missing''},
        current_hash := ''fff0000'',
        status_info := [''feature'' \<mapsto> (None, Fore_WHITE), ''missing'' \<mapsto> (None, Fore_WHITE)]\<rparr>"

text \<open>A local branch without tracking counts.\<close>

definition local_info :: "string \<Rightarrow> string \<Rightarrow> BranchesInfo" where
  "local_info h u = \<lparr>hash = h, upstream = u, ahead = None, behind = None\<rparr>"

text \<open>
  The bulk listing records \<^verbatim>\<open>origin/master\<close> as the upstream of \<^verbatim>\<open>feature\<close>, and the
  single-branch lookup answers \<^verbatim>\<open>origin/main\<close>.
\<close>

definition relocated_git :: git where
  "relocated_git =
     \<lparr>git_branches_info =
        (\<lambda>_. [(''feature'', Some (local_info ''abc1234'' ''origin/master'')),
              (''other'', Some (local_info ''bcd2345'' ''origin/main'')),
              (''origin/master'', None),
              (''origin/main'', None)]),
      git_upstream = (\<lambda>_. Some ''origin/main''),
      git_hash_one = (\<lambda>b. if b = ''HEAD'' then Some ''fff0000'' else Some ''def5678''),
      git_current_branch = Some ''HEAD'',
      git_tags = [],
      git_log_subject = (\<lambda>_. Some ''subject''),
      cl_statuses = (\<lambda>ks _ _. map (\<lambda>k. (k, None, ''waiting'')) ks),
      cl_color_for_status = (\<lambda>_. Fore_WHITE)\<rparr>"

definition relocated_mapper :: BranchMapper where
  "relocated_mapper = BranchMapper_init\<lparr>branches_info := git_branches_info relocated_git False\<rparr>"

text \<open>
  The bulk listing records no upstream for \<^verbatim>\<open>child\<close>, and the single-branch lookup
  answers \<^verbatim>\<open>base\<close>, a local branch with an entry of its own.
\<close>

definition stacked_git :: git where
  "stacked_git =
     \<lparr>git_branches_info =
        (\<lambda>_. [(''child'', Some (local_info ''abc1234'' [])),
              (''base'', Some (local_info ''bcd2345'' ''origin/master'')),
              ([], None),
              (''origin/master'', None)]),
      git_upstream = (\<lambda>b. if b = ''child'' then Some ''base''
                         else if b = ''base'' then Some ''origin/master'' else None),
      git_hash_one = (\<lambda>b. if b = ''HEAD'' then Some ''fff0000'' else Some ''def5678''),
      git_current_branch = Some ''HEAD'',
      git_tags = [],
      git_log_subject = (\<lambda>_. Some ''subject''),
      cl_statuses = (\<lambda>ks _ _. map (\<lambda>k. (k, None, ''waiting'')) ks),
      cl_color_for_status = (\<lambda>_. Fore_WHITE)\<rparr>"

definition stacked_mapper :: BranchMapper where
  "stacked_mapper = BranchMapper_init\<lparr>branches_info := git_branches_info stacked_git False\<rparr>"

text \<open>
  The upstream \<^verbatim>\<open>upstream/master\<close> is found by the single-branch lookup, and
  \<^verbatim>\<open>hash_one\<close> fails on it.
\<close>

definition unhashed_git :: git where
  "unhashed_git =
     \<lparr>git_branches_info =
        (\<lambda>_. [(''feature'', Some (local_info ''abc1234'' ''upstream/master'')),
              (''upstream/master'', None)]),
      git_upstream = (\<lambda>_. Some ''upstream/master''),
      git_hash_one = (\<lambda>b. if b = ''HEAD'' then Some ''fff0000'' else None),
      git_current_branch = Some ''feature'',
      git_tags = [],
      git_log_subject = (\<lambda>_. Some ''subject''),
      cl_statuses = (\<lambda>ks _ _. map (\<lambda>k. (k, None, ''waiting'')) ks),
      cl_color_for_status = (\<lambda>_. Fore_WHITE)\<rparr>"

text \<open>Two local branches that track each other.\<close>

definition cyclic_git :: git where
  "cyclic_git =
     \<lparr>git_branches_info =
        (\<lambda>_. [(''a'', Some (local_info ''abc1234'' ''b'')),
              (''b'', Some (local_info ''bcd2345'' ''a''))]),
      git_upstream = (\<lambda>b. if b = ''a'' then Some ''b'' else if b = ''b'' then Some ''a'' else None),
      git_hash_one = (\<lambda>b. if b = ''HEAD'' then Some ''fff0000'' else None),
      git_current_branch = Some ''a'',
      git_tags = [],
      git_log_subject = (\<lambda>_. Some ''subject''),
      cl_statuses = (\<lambda>ks _ _. map (\<lambda>k. (k, None, ''waiting'')) ks),
      cl_color_for_status = (\<lambda>_. Fore_WHITE)\<rparr>"

text \<open>
  A branch on \<^verbatim>\<open>origin/master\<close>, a branch whose upstream is gone, two branches that track
  each other and a third stacked on one of them.
\<close>

definition mixed_git :: git where
  "mixed_git =
     \<lparr>git_branches_info =
        (\<lambda>_. [(''feature'', Some (local_info ''abc1234'' ''origin/master'')),
              (''orphan'', Some (local_info ''bcd2345'' ''missing'')),
              (''a'', Some (local_info ''cde3456'' ''b'')),
              (''b'', Some (local_info ''def4567'' ''a'')),
              (''c'', Some (local_info ''efa5678'' ''a'')),
              (''origin/master'', None),
              (''missing'', None)]),
      git_upstream = (\<lambda>b. if b = ''feature'' then Some ''origin/master'' else None),
      git_hash_one = (\<lambda>b. if b = ''HEAD'' then Some ''fff0000''
                         else if b = ''origin/master'' then Some ''def5678'' else None),
      git_current_branch = Some ''feature'',
      git_tags = [],
      git_log_subject = (\<lambda>_. Some ''subject''),
      cl_statuses = (\<lambda>ks _ _. map (\<lambda>k. (k, None, ''waiting'')) ks),
      cl_color_for_status = (\<lambda>_. Fore_WHITE)\<rparr>"

text \<open>Two rows of two cells; the second cell of the first row is empty.\<close>

definition two_cells :: "string \<Rightarrow> string \<Rightarrow> OutputLine" where
  "two_cells name bracket =
     OutputLine_append
       (OutputLine_append OutputLine_init name DEFAULT_SEPARATOR (Fore_GREEN @ Style_NORMAL))
       bracket DEFAULT_SEPARATOR Fore_WHITE"

definition demo_rows :: "OutputLine list" where
  "demo_rows = [two_cells ''master'' [], two_cells ''topic'' ''['']"

section \<open>Termination of the traversal\<close>

lemma parent_map_shrinks_dom:
  "append_branch_append_branches_dom (Inl (env, m, branch, depth)) \<Longrightarrow>
     append_branch env m branch depth = Inr m' \<Longrightarrow>
     length (parent_map m') \<le> length (parent_map m)"
  "append_branch_append_branches_dom (Inr (env, m, bs, depth)) \<Longrightarrow>
     append_branches env m bs depth = Inr m' \<Longrightarrow>
     length (parent_map m') \<le> length (parent_map m)"
proof (induction env m branch depth and env m bs depth arbitrary: m' and m'
       rule: append_branch_append_branches.pinduct)
  case (1 env m branch depth)
  from "1.prems" "1.hyps" obtain line om where
    l: "build_line env m branch depth = Inr line" and
    o: "OutputManager_append (output_manager m) line = Inr om" and
    r: "append_branches env
          (m\<lparr>output_manager := om, visited := visited m @ [(branch, depth)],
             parent_map := AList.delete branch (parent_map m)\<rparr>)
          (sort (children_of (parent_map m) branch)) (depth + 1) = Inr m'"
    by (auto simp: append_branch.psimps split: sum.splits)
  from "1.IH"[OF l o r]
  have "length (parent_map m') \<le> length (AList.delete branch (parent_map m))"
    by simp
  then show ?case using length_delete_le[of branch "parent_map m"] by linarith
next
  case (2 env m depth)
  then show ?case by (simp add: append_branches.psimps)
next
  case (3 env m child rest depth)
  from "3.prems" "3.hyps" obtain m1 where
    a: "append_branch env m child depth = Inr m1" and
    b: "append_branches env m1 rest depth = Inr m'"
    by (auto simp: append_branches.psimps split: sum.splits)
  from "3.IH"(1)[OF a] "3.IH"(2)[OF a b] show ?case by linarith
qed

lemma delete_shorter: "map_of pm k = Some v \<Longrightarrow> length (AList.delete k pm) < length pm"
  by (induction pm) (auto simp: less_Suc_eq_le length_delete_le split: if_splits)

text \<open>
  Every call either pops a key of the parent map, or finds none and has no children to
  descend to; the loop hands on a map that is no longer than the one it received.
\<close>

termination append_branch
proof (relation "inv_image (less_than <*lex*> less_than)
         (\<lambda>x. case x of
                Inl (env, m, b, d) \<Rightarrow> (length (parent_map m), Suc 0)
              | Inr (env, m, bs, d) \<Rightarrow> (length (parent_map m), 2 * length bs))", goal_cases)
  case 1
  show ?case by (intro wf_inv_image wf_lex_prod wf_less_than)
next
  case (2 env m branch depth line om)
  show ?case
  proof (cases "map_of (parent_map m) branch")
    case None
    then show ?thesis
      using length_delete_le[of branch "parent_map m"]
      by (simp add: children_of_def le_less)
  next
    case (Some cs)
    then show ?thesis using delete_shorter[OF Some] by simp
  qed
next
  case (3 env m child rest depth)
  then show ?case by simp
next
  case (4 env m child rest depth m')
  then show ?case
    by (auto simp: less_Suc_eq_le dest!: parent_map_shrinks_dom(1))
qed

declare append_branch.simps [simp del]

section \<open>Rows\<close>

lemma columns_OutputLine_append [simp]:
  "columns (OutputLine_append line d s c) = columns line @ [d]"
  "separators (OutputLine_append line d s c) = separators line @ [s]"
  "colors (OutputLine_append line d s c) = colors line @ [c]"
  by (simp_all add: OutputLine_append_def)

lemma OutputLine_init_simps [simp]:
  "columns OutputLine_init = []" "separators OutputLine_init = []" "colors OutputLine_init = []"
  by (simp_all add: OutputLine_init_def)

lemma columns_tracking_columns:
  "\<exists>cs. columns (tracking_columns m bi line) = columns line @ cs \<and> length cs = 5"
  by (simp add: tracking_columns_def Let_def)

lemma columns_review_column:
  "review_column m branch line = Inr line' \<Longrightarrow> \<exists>c. columns line' = columns line @ [c]"
  by (auto simp: review_column_def Let_def split: option.splits)

lemma build_line_columns:
  assumes "build_line env m branch depth = Inr line"
  shows "\<exists>cs. columns line = main_string m branch depth # cs \<and> Suc (length cs) = num_cells m"
proof -
  from assms obtain branch_info branch_hash color where
    c: "color_for_branch m branch branch_hash = Inr color"
    and rest: "(let line1 = OutputLine_append OutputLine_init (main_string m branch depth)
                       DEFAULT_SEPARATOR color;
              line2 = (if 2 \<le> verbosity m
                      then OutputLine_append line1
                             (if truthy branch_hash then the branch_hash else []) '' '' Fore_RED
                      else line1);
              line3 = (if 1 \<le> verbosity m then tracking_columns m branch_info line2 else line2)
          in (case (if 2 \<le> verbosity m then review_column m branch line3 else Inr line3) of
                Inl e \<Rightarrow> Inl e
              | Inr line4 \<Rightarrow>
                  if show_subject m
                  then (case git_log_subject env branch of
                          None \<Rightarrow> Inl CalledProcessError
                        | Some subject \<Rightarrow>
                            Inr (OutputLine_append line4 subject DEFAULT_SEPARATOR Fore_WHITE))
                  else Inr line4)) = Inr line"
    by (auto simp: build_line_def split: sum.splits)
  define line1 where "line1 = OutputLine_append OutputLine_init (main_string m branch depth)
                       DEFAULT_SEPARATOR color"
  define line2 where "line2 = (if 2 \<le> verbosity m
                      then OutputLine_append line1
                             (if truthy branch_hash then the branch_hash else []) '' '' Fore_RED
                      else line1)"
  define line3 where "line3 = (if 1 \<le> verbosity m then tracking_columns m branch_info line2 else line2)"
  from rest obtain line4 where
    l4: "(if 2 \<le> verbosity m then review_column m branch line3 else Inr line3) = Inr line4"
    and l5: "(if show_subject m
                  then (case git_log_subject env branch of
                          None \<Rightarrow> Inl CalledProcessError
                        | Some subject \<Rightarrow>
                            Inr (OutputLine_append line4 subject DEFAULT_SEPARATOR Fore_WHITE))
                  else Inr line4) = Inr line"
  proof -
    have "(case (if 2 \<le> verbosity m then review_column m branch line3 else Inr line3) of
                Inl e \<Rightarrow> Inl e
              | Inr line4 \<Rightarrow>
                  if show_subject m
                  then (case git_log_subject env branch of
                          None \<Rightarrow> Inl CalledProcessError
                        | Some subject \<Rightarrow>
                            Inr (OutputLine_append line4 subject DEFAULT_SEPARATOR Fore_WHITE))
                  else Inr line4) = Inr line"
      using rest unfolding Let_def line1_def line2_def line3_def .
    then show ?thesis
      using that
      by (cases "if 2 \<le> verbosity m then review_column m branch line3 else Inr line3")
         simp_all
  qed
  have 1: "columns line1 = [main_string m branch depth]"
    by (simp add: line1_def)
  have 2: "\<exists>cs. columns line2 = main_string m branch depth # cs
             \<and> length cs = (if 2 \<le> verbosity m then 1 else 0)"
    by (simp add: line2_def 1)
  have 3: "\<exists>cs. columns line3 = main_string m branch depth # cs
             \<and> length cs = (if 2 \<le> verbosity m then 1 else 0) + (if 1 \<le> verbosity m then 5 else 0)"
    using 2 columns_tracking_columns[of m branch_info line2]
    by (auto simp: line3_def)
  have 4: "\<exists>cs. columns line4 = main_string m branch depth # cs
             \<and> length cs = (if 2 \<le> verbosity m then 1 else 0) + (if 1 \<le> verbosity m then 5 else 0)
                  + (if 2 \<le> verbosity m then 1 else 0)"
  proof (cases "2 \<le> verbosity m")
    case True
    with l4 have "review_column m branch line3 = Inr line4" by simp
    from columns_review_column[OF this] 3 True show ?thesis by auto
  next
    case False
    with l4 3 show ?thesis by auto
  qed
  show ?thesis
  proof (cases "show_subject m")
    case True
    with l5 obtain subject where "line = OutputLine_append line4 subject DEFAULT_SEPARATOR Fore_WHITE"
      by (auto split: option.splits)
    with 4 True show ?thesis by (auto simp: num_cells_def)
  next
    case False
    with l5 4 show ?thesis by (auto simp: num_cells_def)
  qed
qed

lemma main_string_empty:
  "main_string m [] depth =
           concat (replicate depth ''  '') @ ''{NO_UPSTREAM}''
             @ (if current_branch m = Some [] \<or> (current_branch m = Some ''HEAD'' \<and> current_hash m = [])
                then '' *'' else [])"
  by (auto simp: main_string_def Let_def)

section \<open>The empty name (C10)\<close>

text \<open>
  C10. A visited node whose name is the empty string has the name text \<^verbatim>\<open>{NO_UPSTREAM}\<close>
  (after the indentation, before the marker of the checked-out branch), whether or not
  the empty string is in the gone set: the test for the empty name comes after the test
  for a gone branch and overrides it.
\<close>

theorem empty_name_is_NO_UPSTREAM:
  assumes "build_line env m [] depth = Inr line"
  shows "hd (columns line) =
           concat (replicate depth ''  '') @ ''{NO_UPSTREAM}''
             @ (if current_branch m = Some [] \<or> (current_branch m = Some ''HEAD'' \<and> current_hash m = [])
                then '' *'' else [])"
  using build_line_columns[OF assms] main_string_empty[of m depth] by auto

theorem empty_name_is_NO_UPSTREAM_witness:
  "[] \<in> gone_branches gone_empty_mapper \<and>
   build_line quiet_git gone_empty_mapper [] 1 =
     Inr \<lparr>columns = [''  {NO_UPSTREAM}''], separators = [DEFAULT_SEPARATOR],
          colors = [Fore_MAGENTA @ Style_NORMAL]\<rparr> \<and>
   hd (columns \<lparr>columns = [''  {NO_UPSTREAM}''], separators = [DEFAULT_SEPARATOR],
          colors = [Fore_MAGENTA @ Style_NORMAL]\<rparr>) = ''  {NO_UPSTREAM}''"
proof -
  have b: "build_line quiet_git gone_empty_mapper [] 1 =
     Inr \<lparr>columns = [''  {NO_UPSTREAM}''], separators = [DEFAULT_SEPARATOR],
          colors = [Fore_MAGENTA @ Style_NORMAL]\<rparr>"
    by code_simp
  have g: "[] \<in> gone_branches gone_empty_mapper"
    by (simp add: gone_empty_mapper_def)
  from empty_name_is_NO_UPSTREAM[OF b] g b show ?thesis
    by simp
qed

section \<open>The tracking status cells (C4)\<close>

lemma format_d_digit: "format_d 3 = ''3''" "format_d 2 = ''2''" "format_d 5 = ''5''"
  by code_simp+

lemma tracking_columns_valid:
  assumes "\<not> is_invalid_parent m (upstream info)"
  shows "tracking_columns m (Some info) line =
     \<lparr>columns = columns line @ 
        [if nonzero (ahead info) \<or> nonzero (behind info) then ''['' else [],
         if nonzero (ahead info) then ''ahead '' @ format_d (the (ahead info)) else [],
         if nonzero (ahead info) \<and> nonzero (behind info) then ''|'' else [],
         if nonzero (behind info) then ''behind '' @ format_d (the (behind info)) else [],
         if nonzero (ahead info) \<or> nonzero (behind info) then '']'' else []],
      separators = separators line @ ['' '', '' '', '' '', '' '', DEFAULT_SEPARATOR],
      colors = colors line @ [Fore_WHITE, Fore_MAGENTA, Fore_WHITE, Fore_MAGENTA, Fore_WHITE]\<rparr>"
  using assms by (simp add: tracking_columns_def Let_def OutputLine_append_def)

lemma render_30:
  "render_row \<lparr>columns = [''['', ''ahead 3'', [], [], '']''],
      separators = ['' '', '' '', '' '', '' '', DEFAULT_SEPARATOR],
      colors = [Fore_WHITE, Fore_MAGENTA, Fore_WHITE, Fore_MAGENTA, Fore_WHITE]\<rparr> = Inr ''[ ahead 3 ]''"
  by code_simp

lemma render_25:
  "render_row \<lparr>columns = [''['', ''ahead 2'', ''|'', ''behind 5'', '']''],
      separators = ['' '', '' '', '' '', '' '', DEFAULT_SEPARATOR],
      colors = [Fore_WHITE, Fore_MAGENTA, Fore_WHITE, Fore_MAGENTA, Fore_WHITE]\<rparr> = Inr ''[ ahead 2 | behind 5 ]''"
  by code_simp

lemma render_00:
  "render_row \<lparr>columns = [[], [], [], [], []],
      separators = ['' '', '' '', '' '', '' '', DEFAULT_SEPARATOR],
      colors = [Fore_WHITE, Fore_MAGENTA, Fore_WHITE, Fore_MAGENTA, Fore_WHITE]\<rparr> = Inr []"
  by code_simp

text \<open>
  C4, as the code has it. For a branch whose upstream is neither empty nor gone, the five
  tracking cells are: the opening bracket, present when a count is non-zero; the text
  \<^verbatim>\<open>ahead N\<close>; the bar, present when both counts are non-zero; the text
  \<^verbatim>\<open>behind N\<close>; the closing bracket, present when a count is non-zero. Each of the
  first four cells is followed by one space, so that a row of these cells alone reads
  \<^verbatim>\<open>[ ahead 3 ]\<close> for 3 and 0, \<^verbatim>\<open>[ ahead 2 | behind 5 ]\<close> for 2 and 5, and is empty
  for 0 and 0.
\<close>

theorem tracking_status_cells:
  assumes "\<not> is_invalid_parent m (upstream info)"
  shows "columns (tracking_columns m (Some info) OutputLine_init) =
           [if nonzero (ahead info) \<or> nonzero (behind info) then ''['' else [],
            if nonzero (ahead info) then ''ahead '' @ format_d (the (ahead info)) else [],
            if nonzero (ahead info) \<and> nonzero (behind info) then ''|'' else [],
            if nonzero (behind info) then ''behind '' @ format_d (the (behind info)) else [],
            if nonzero (ahead info) \<or> nonzero (behind info) then '']'' else []]
       \<and> (ahead info = Some 3 \<and> behind info = Some 0 \<longrightarrow>
            render_row (tracking_columns m (Some info) OutputLine_init) = Inr ''[ ahead 3 ]'')
       \<and> (ahead info = Some 2 \<and> behind info = Some 5 \<longrightarrow>
            render_row (tracking_columns m (Some info) OutputLine_init) = Inr ''[ ahead 2 | behind 5 ]'')
       \<and> (ahead info = Some 0 \<and> behind info = Some 0 \<longrightarrow>
            render_row (tracking_columns m (Some info) OutputLine_init) = Inr [])"
  using render_30 render_25 render_00
  by (simp add: tracking_columns_valid[OF assms] OutputLine_init_def nonzero_def format_d_digit)

theorem tracking_status_cells_witness:
  "\<not> is_invalid_parent BranchMapper_init (upstream (tracked (Some 3) (Some 0)))
   \<and> columns (tracking_columns BranchMapper_init (Some (tracked (Some 3) (Some 0))) OutputLine_init)
       = [''['', ''ahead 3'', [], [], '']'']
   \<and> render_row (tracking_columns BranchMapper_init (Some (tracked (Some 3) (Some 0))) OutputLine_init)
       = Inr ''[ ahead 3 ]''"
proof -
  have v: "\<not> is_invalid_parent BranchMapper_init (upstream (tracked (Some 3) (Some 0)))"
    by (simp add: is_invalid_parent_def BranchMapper_init_def tracked_def)
  from tracking_status_cells[OF v] v show ?thesis
    by (simp add: tracked_def nonzero_def format_d_digit)
qed

text \<open>
  The texts \<^verbatim>\<open>[ahead 3 ]\<close> and \<^verbatim>\<open>[ahead 2 | behind 5]\<close> are not what is rendered: the
  bracket cell has its own separator.
\<close>

theorem tracking_text_counterexample:
  "render_row (tracking_columns BranchMapper_init (Some (tracked (Some 3) (Some 0))) OutputLine_init)
     \<noteq> Inr ''[ahead 3 ]''
   \<and> render_row (tracking_columns BranchMapper_init (Some (tracked (Some 2) (Some 5))) OutputLine_init)
     \<noteq> Inr ''[ahead 2 | behind 5]''
   \<and> main feature_git 1 True None False
       = Inr (''origin/master'' @ [CHR 0x0A] @ ''  feature *      [ ahead 3 ]'')"
  by code_simp

section \<open>The review status cell (C8)\<close>

lemma build_line_shape:
  assumes "build_line env m branch depth = Inr line"
  obtains branch_info branch_hash color line4 where
    "getitem (branches_info m) branch = Inr branch_info"
    "branch_hash_of env m branch = Inr branch_hash"
    "color_for_branch m branch branch_hash = Inr color"
    "(if 2 \<le> verbosity m
      then review_column m branch
             (if 1 \<le> verbosity m
              then tracking_columns m branch_info
                     (OutputLine_append
                        (OutputLine_append OutputLine_init (main_string m branch depth)
                           DEFAULT_SEPARATOR color)
                        (if truthy branch_hash then the branch_hash else []) '' '' Fore_RED)
              else OutputLine_append
                     (OutputLine_append OutputLine_init (main_string m branch depth)
                        DEFAULT_SEPARATOR color)
                     (if truthy branch_hash then the branch_hash else []) '' '' Fore_RED)
      else Inr (if 1 \<le> verbosity m
                then tracking_columns m branch_info
                       (OutputLine_append OutputLine_init (main_string m branch depth)
                          DEFAULT_SEPARATOR color)
                else OutputLine_append OutputLine_init (main_string m branch depth)
                       DEFAULT_SEPARATOR color)) = Inr line4"
    "(if show_subject m
      then (case git_log_subject env branch of
              None \<Rightarrow> Inl CalledProcessError
            | Some subject \<Rightarrow> Inr (OutputLine_append line4 subject DEFAULT_SEPARATOR Fore_WHITE))
      else Inr line4) = Inr line"
proof -
  from assms obtain branch_info where
    bi: "getitem (branches_info m) branch = Inr branch_info"
    by (cases "getitem (branches_info m) branch") (simp_all add: build_line_def)
  from assms bi obtain branch_hash where
    bh: "branch_hash_of env m branch = Inr branch_hash"
    by (cases "branch_hash_of env m branch") (simp_all add: build_line_def)
  from assms bi bh obtain color where
    c: "color_for_branch m branch branch_hash = Inr color"
    by (cases "color_for_branch m branch branch_hash") (simp_all add: build_line_def)
  let ?l3 = "(if 1 \<le> verbosity m
              then tracking_columns m branch_info
                     (if 2 \<le> verbosity m
                      then OutputLine_append
                        (OutputLine_append OutputLine_init (main_string m branch depth)
                           DEFAULT_SEPARATOR color)
                        (if truthy branch_hash then the branch_hash else []) '' '' Fore_RED
                      else OutputLine_append OutputLine_init (main_string m branch depth)
                           DEFAULT_SEPARATOR color)
              else (if 2 \<le> verbosity m
                      then OutputLine_append
                        (OutputLine_append OutputLine_init (main_string m branch depth)
                           DEFAULT_SEPARATOR color)
                        (if truthy branch_hash then the branch_hash else []) '' '' Fore_RED
                      else OutputLine_append OutputLine_init (main_string m branch depth)
                           DEFAULT_SEPARATOR color))"
  have rest: "(case (if 2 \<le> verbosity m then review_column m branch ?l3 else Inr ?l3) of
                Inl e \<Rightarrow> Inl e
              | Inr line4 \<Rightarrow>
                  if show_subject m
                  then (case git_log_subject env branch of
                          None \<Rightarrow> Inl CalledProcessError
                        | Some subject \<Rightarrow>
                            Inr (OutputLine_append line4 subject DEFAULT_SEPARATOR Fore_WHITE))
                  else Inr line4) = Inr line"
    using assms bi bh c unfolding build_line_def Let_def by simp
  then obtain line4 where
    l4: "(if 2 \<le> verbosity m then review_column m branch ?l3 else Inr ?l3) = Inr line4"
    and l5: "(if show_subject m
              then (case git_log_subject env branch of
                      None \<Rightarrow> Inl CalledProcessError
                    | Some subject \<Rightarrow>
                        Inr (OutputLine_append line4 subject DEFAULT_SEPARATOR Fore_WHITE))
              else Inr line4) = Inr line"
    by (cases "if 2 \<le> verbosity m then review_column m branch ?l3 else Inr ?l3") simp_all
  from l4 have l4': "(if 2 \<le> verbosity m
      then review_column m branch
             (if 1 \<le> verbosity m
              then tracking_columns m branch_info
                     (OutputLine_append
                        (OutputLine_append OutputLine_init (main_string m branch depth)
                           DEFAULT_SEPARATOR color)
                        (if truthy branch_hash then the branch_hash else []) '' '' Fore_RED)
              else OutputLine_append
                     (OutputLine_append OutputLine_init (main_string m branch depth)
                        DEFAULT_SEPARATOR color)
                     (if truthy branch_hash then the branch_hash else []) '' '' Fore_RED)
      else Inr (if 1 \<le> verbosity m
                then tracking_columns m branch_info
                       (OutputLine_append OutputLine_init (main_string m branch depth)
                          DEFAULT_SEPARATOR color)
                else OutputLine_append OutputLine_init (main_string m branch depth)
                       DEFAULT_SEPARATOR color)) = Inr line4"
    by (simp split: if_splits)
  from that[OF bi bh c l4' l5] show thesis .
qed

lemma tracking_columns_length:
  "length (columns (tracking_columns m bi line)) = length (columns line) + 5"
  using columns_tracking_columns[of m bi line] by auto

lemma tracking_columns_prefix:
  "i < length (columns line) \<Longrightarrow> columns (tracking_columns m bi line) ! i = columns line ! i"
  using columns_tracking_columns[of m bi line] by (auto simp: nth_append)

text \<open>
  C8, as the code has it. At verbosity 2 or more, the review cell (the eighth cell of the
  row) of a node for which no review URL was found is empty when the node itself is the
  empty name or a gone branch, and is the text \<^verbatim>\<open>None\<close> otherwise. The test is made on
  the node, not on the upstream of the node.
\<close>

theorem review_cell_text:
  assumes v: "2 \<le> verbosity m"
    and b: "build_line env m branch depth = Inr line"
    and s: "status_info m branch = Some (url, color)"
    and u: "\<not> truthy url"
  shows "columns line ! 7 = (if branch = [] \<or> branch \<in> gone_branches m then [] else ''None'')"
proof -
  from b obtain branch_info branch_hash c line4 where
    l4: "(if 2 \<le> verbosity m
      then review_column m branch
             (if 1 \<le> verbosity m
              then tracking_columns m branch_info
                     (OutputLine_append
                        (OutputLine_append OutputLine_init (main_string m branch depth)
                           DEFAULT_SEPARATOR c)
                        (if truthy branch_hash then the branch_hash else []) '' '' Fore_RED)
              else OutputLine_append
                     (OutputLine_append OutputLine_init (main_string m branch depth)
                        DEFAULT_SEPARATOR c)
                     (if truthy branch_hash then the branch_hash else []) '' '' Fore_RED)
      else Inr (if 1 \<le> verbosity m
                then tracking_columns m branch_info
                       (OutputLine_append OutputLine_init (main_string m branch depth)
                          DEFAULT_SEPARATOR c)
                else OutputLine_append OutputLine_init (main_string m branch depth)
                       DEFAULT_SEPARATOR c)) = Inr line4"
    and l5: "(if show_subject m
      then (case git_log_subject env branch of
              None \<Rightarrow> Inl CalledProcessError
            | Some subject \<Rightarrow> Inr (OutputLine_append line4 subject DEFAULT_SEPARATOR Fore_WHITE))
      else Inr line4) = Inr line"
    by (rule build_line_shape)
  let ?l3 = "tracking_columns m branch_info
                     (OutputLine_append
                        (OutputLine_append OutputLine_init (main_string m branch depth)
                           DEFAULT_SEPARATOR c)
                        (if truthy branch_hash then the branch_hash else []) '' '' Fore_RED)"
  let ?text = "(if branch = [] \<or> branch \<in> gone_branches m then [] else ''None'')"
  from v have v1: "1 \<le> verbosity m" by simp
  from l4 v v1 have "review_column m branch ?l3 = Inr line4" by simp
  with s u have "line4 = OutputLine_append ?l3 ?text DEFAULT_SEPARATOR color"
    by (auto simp: review_column_def is_invalid_parent_def)
  moreover have "length (columns ?l3) = 7"
    by (simp add: tracking_columns_length)
  ultimately have 4: "columns line4 ! 7 = ?text" "length (columns line4) = 8"
    by (simp_all add: nth_append)
  from l5 have "line = line4 \<or> (\<exists>subject. line = OutputLine_append line4 subject DEFAULT_SEPARATOR Fore_WHITE)"
    by (auto split: if_splits option.splits)
  with 4 show ?thesis by (auto simp: nth_append)
qed

theorem review_cell_text_witness:
  "2 \<le> verbosity gone_mapper
   \<and> build_line gone_git gone_mapper ''feature'' 1 =
       Inr \<lparr>columns = [''  feature'', ''abc1234'', [], [], [], [], [], ''None''],
            separators = [DEFAULT_SEPARATOR, '' '', '' '', '' '', '' '', '' '',
                          DEFAULT_SEPARATOR, DEFAULT_SEPARATOR],
            colors = [Fore_GREEN @ Style_NORMAL, Fore_RED, Fore_WHITE, Fore_MAGENTA,
                      Fore_WHITE, Fore_MAGENTA, Fore_WHITE, Fore_WHITE]\<rparr>
   \<and> status_info gone_mapper ''feature'' = Some (None, Fore_WHITE)
   \<and> \<not> truthy None
   \<and> [''  feature'', ''abc1234'', [], [], [], [], [], ''None''] ! 7 = ''None''"
proof -
  have v: "2 \<le> verbosity gone_mapper"
    by (simp add: gone_mapper_def)
  have b: "build_line gone_git gone_mapper ''feature'' 1 =
       Inr \<lparr>columns = [''  feature'', ''abc1234'', [], [], [], [], [], ''None''],
            separators = [DEFAULT_SEPARATOR, '' '', '' '', '' '', '' '', '' '',
                          DEFAULT_SEPARATOR, DEFAULT_SEPARATOR],
            colors = [Fore_GREEN @ Style_NORMAL, Fore_RED, Fore_WHITE, Fore_MAGENTA,
                      Fore_WHITE, Fore_MAGENTA, Fore_WHITE, Fore_WHITE]\<rparr>"
    by code_simp
  have s: "status_info gone_mapper ''feature'' = Some (None, Fore_WHITE)"
    by (simp add: gone_mapper_def)
  have u: "\<not> truthy None"
    by (simp add: truthy_def)
  from review_cell_text[OF v b s u] v b s u show ?thesis
    by (simp add: gone_mapper_def)
qed

text \<open>
  A branch whose upstream is gone still shows \<^verbatim>\<open>None\<close>: its parent is invalid, the branch
  itself is not.
\<close>

theorem review_text_counterexample:
  "is_invalid_parent gone_mapper ''missing''
   \<and> map_sum id columns (build_line gone_git gone_mapper ''feature'' 1)
       = Inr [''  feature'', ''abc1234'', [], [], [], [], [], ''None'']
   \<and> main gone_git 2 True None False
       = Inr (''{missing:GONE}'' @ [CHR 0x0A] @ ''  feature         abc1234 None'')"
  by code_simp

section \<open>Choosing the parent of a branch (C2)\<close>

text \<open>
  C2, as the code has it. The recorded upstream is used directly, and the single-branch
  lookup plays no part, when the recorded upstream has a non-empty entry in the bulk
  mapping. When its entry is empty, the single-branch lookup is consulted: a non-empty
  answer becomes the parent, and a root when it has no non-empty entry of its own;
  otherwise the recorded upstream is kept as the parent, marked gone and made a root.
  When the bulk mapping has no such key, the subscript raises \<^verbatim>\<open>KeyError\<close>.
\<close>

theorem parent_resolution:
  "(map_of (branches_info m) (upstream info) = Some (Some pinfo) \<longrightarrow>
      build_step env (roots, m) (branch, Some info) =
        Inr (roots,
             m\<lparr>parent_map :=
                 AList.update (upstream info)
                   (children_of (parent_map m) (upstream info) @ [branch]) (parent_map m)\<rparr>))
   \<and> (map_of (branches_info m) (upstream info) = Some None \<and> truthy (git_upstream env branch) \<longrightarrow>
      map_sum id snd (build_step env (roots, m) (branch, Some info)) =
        Inr (m\<lparr>parent_map :=
                 AList.update (the (git_upstream env branch))
                   (children_of (parent_map m) (the (git_upstream env branch)) @ [branch])
                   (parent_map m)\<rparr>)
      \<and> (\<not> has_info (branches_info m) (the (git_upstream env branch)) \<longrightarrow>
           map_sum id fst (build_step env (roots, m) (branch, Some info)) =
             Inr (List.insert (the (git_upstream env branch)) roots)))
   \<and> (map_of (branches_info m) (upstream info) = Some None \<and> \<not> truthy (git_upstream env branch) \<longrightarrow>
      build_step env (roots, m) (branch, Some info) =
        Inr (List.insert (upstream info) roots,
             m\<lparr>gone_branches := insert (upstream info) (gone_branches m),
               parent_map :=
                 AList.update (upstream info)
                   (children_of (parent_map m) (upstream info) @ [branch]) (parent_map m)\<rparr>))
   \<and> (map_of (branches_info m) (upstream info) = None \<longrightarrow>
      build_step env (roots, m) (branch, Some info) = Inl KeyError)"
  by (simp add: build_step_def getitem_def Let_def)

theorem parent_resolution_witness:
  "map_of (branches_info stacked_mapper) (upstream (local_info ''cde3456'' ''base''))
     = Some (Some (local_info ''bcd2345'' ''origin/master''))
   \<and> build_step quiet_git ([], stacked_mapper) (''topic'', Some (local_info ''cde3456'' ''base''))
     = Inr ([], stacked_mapper\<lparr>parent_map := [(''base'', [''topic''])]\<rparr>)
   \<and> map_of (branches_info relocated_mapper) (upstream (local_info ''abc1234'' ''origin/master''))
     = Some None
   \<and> truthy (git_upstream relocated_git ''feature'')
   \<and> \<not> has_info (branches_info relocated_mapper) (the (git_upstream relocated_git ''feature''))
   \<and> map_sum id snd
         (build_step relocated_git ([], relocated_mapper)
            (''feature'', Some (local_info ''abc1234'' ''origin/master'')))
     = Inr (relocated_mapper\<lparr>parent_map := [(''origin/main'', [''feature''])]\<rparr>)
   \<and> map_sum id fst
         (build_step relocated_git ([], relocated_mapper)
            (''feature'', Some (local_info ''abc1234'' ''origin/master'')))
     = Inr [''origin/main'']
   \<and> \<not> truthy (git_upstream quiet_git ''feature'')
   \<and> build_step quiet_git ([], relocated_mapper)
         (''feature'', Some (local_info ''abc1234'' ''origin/master''))
     = Inr ([''origin/master''],
            relocated_mapper\<lparr>gone_branches := {''origin/master''},
                             parent_map := [(''origin/master'', [''feature''])]\<rparr>)
   \<and> map_of (branches_info BranchMapper_init) (upstream (local_info ''abc1234'' ''origin/master''))
     = None
   \<and> build_step quiet_git ([], BranchMapper_init)
         (''feature'', Some (local_info ''abc1234'' ''origin/master''))
     = Inl KeyError"
proof -
  have 1: "map_of (branches_info stacked_mapper) (upstream (local_info ''cde3456'' ''base''))
             = Some (Some (local_info ''bcd2345'' ''origin/master''))"
    by (simp add: stacked_mapper_def stacked_git_def local_info_def)
  have 2: "map_of (branches_info relocated_mapper) (upstream (local_info ''abc1234'' ''origin/master''))
             = Some None"
    by (simp add: relocated_mapper_def relocated_git_def local_info_def)
  have 3: "truthy (git_upstream relocated_git ''feature'')"
    by (simp add: relocated_git_def truthy_def)
  have 4: "\<not> truthy (git_upstream quiet_git ''feature'')"
    by (simp add: quiet_git_def truthy_def)
  have 6: "\<not> has_info (branches_info relocated_mapper)
               (the (git_upstream relocated_git ''feature''))"
    by (simp add: has_info_def relocated_mapper_def relocated_git_def)
  have 5: "map_of (branches_info BranchMapper_init)
             (upstream (local_info ''abc1234'' ''origin/master'')) = None"
    by (simp add: BranchMapper_init_def)
  have p: "parent_map stacked_mapper = []" "parent_map relocated_mapper = []"
    "gone_branches relocated_mapper = {}"
    by (simp_all add: stacked_mapper_def relocated_mapper_def BranchMapper_init_def)
  have u: "upstream (local_info ''cde3456'' ''base'') = ''base''"
    "upstream (local_info ''abc1234'' ''origin/master'') = ''origin/master''"
    "the (git_upstream relocated_git ''feature'') = ''origin/main''"
    by (simp_all add: local_info_def relocated_git_def)
  show ?thesis
    using 1 2 3 4 5 6
      parent_resolution[of stacked_mapper "local_info ''cde3456'' ''base''"
        "local_info ''bcd2345'' ''origin/master''" quiet_git "[]" "''topic''"]
      parent_resolution[of relocated_mapper "local_info ''abc1234'' ''origin/master''"
        "local_info [] []" relocated_git "[]" "''feature''"]
      parent_resolution[of relocated_mapper "local_info ''abc1234'' ''origin/master''"
        "local_info [] []" quiet_git "[]" "''feature''"]
      parent_resolution[of BranchMapper_init "local_info ''abc1234'' ''origin/master''"
        "local_info [] []" quiet_git "[]" "''feature''"]
    by (simp add: p u children_of_def)
qed

text \<open>
  The recorded upstream \<^verbatim>\<open>origin/master\<close> is a key of the bulk mapping, with an empty
  entry; the parent of \<^verbatim>\<open>feature\<close> is nevertheless what the single-branch lookup answers.
\<close>

theorem recorded_upstream_counterexample:
  "map_of (git_branches_info relocated_git False) ''origin/master'' = Some None
   \<and> map_sum id (parent_map \<circ> snd)
        (build_step relocated_git ([], relocated_mapper)
           (''feature'', Some (local_info ''abc1234'' ''origin/master'')))
       = Inr [(''origin/main'', [''feature''])]
   \<and> main relocated_git 0 True None False
       = Inr (''origin/main'' @ [CHR 0x0A] @ ''  feature'' @ [CHR 0x0A] @ ''  other'')"
  by code_simp

section \<open>Roots with an entry of their own (C9, C3)\<close>

text \<open>
  C9. A parent is to become a root only if it has no BranchInfo entry of its own. Here
  the single-branch lookup answers \<^verbatim>\<open>base\<close> for \<^verbatim>\<open>child\<close>; \<^verbatim>\<open>base\<close> has a non-empty entry in
  the bulk mapping, and the builder makes it a root all the same: the answer replaces
  \<open>parent\<close> after the test of line 149 and is not tested again.
\<close>

theorem resolved_parent_becomes_root:
  "map_of (git_branches_info stacked_git False) ''base''
     = Some (Some (local_info ''bcd2345'' ''origin/master''))
   \<and> git_upstream stacked_git ''child'' = Some ''base''
   \<and> map_sum id fst (build_loop stacked_git ([], stacked_mapper) (branches_info stacked_mapper))
       = Inr [''origin/master'', ''base'']"
  by code_simp

text \<open>
  C3. Every branch is to be rendered at most once. In the same repository \<^verbatim>\<open>base\<close> is
  visited as a root and again as the child of \<^verbatim>\<open>origin/master\<close>, and has two rows.
\<close>

theorem branch_rendered_twice:
  "map_sum id visited (start stacked_git (mapper_of_opts 0 True None False))
     = Inr [(''base'', 0), (''child'', 1), (''origin/master'', 0), (''base'', 1)]
   \<and> main stacked_git 0 True None False
     = Inr (''base'' @ [CHR 0x0A] @ ''  child'' @ [CHR 0x0A] @ ''origin/master''
            @ [CHR 0x0A] @ ''  base'')"
  by code_simp

section \<open>A hash that cannot be resolved (C5)\<close>

text \<open>
  C5. A node whose hash cannot be resolved is to be rendered with an empty hash cell.
  For a root that is neither under \<^verbatim>\<open>origin\<close> or \<^verbatim>\<open>branch-heads\<close>, nor gone, nor a tag,
  \<^verbatim>\<open>__color_for_branch\<close> calls \<^verbatim>\<open>startswith(None)\<close> at line 183, and the run ends
  with \<^verbatim>\<open>TypeError\<close>.
\<close>

theorem unresolved_hash_raises:
  "git_hash_one unhashed_git ''upstream/master'' = None
   \<and> branch_hash_of unhashed_git
        (BranchMapper_init\<lparr>branches_info := git_branches_info unhashed_git False\<rparr>)
        ''upstream/master'' = Inr None
   \<and> main unhashed_git 0 True None False = Inl TypeError
   \<and> main unhashed_git 2 True None False = Inl TypeError"
  by code_simp

section \<open>Column counts (C6)\<close>

lemma update_max_total:
  "i + length cols \<le> length mcl \<Longrightarrow>
     \<exists>mcl'. update_max mcl i cols = Inr mcl' \<and> length mcl' = length mcl"
proof (induction cols arbitrary: mcl i)
  case Nil
  then show ?case by simp
next
  case (Cons c cols)
  from Cons.prems have "Suc i + length cols \<le> length (mcl[i := max (mcl ! i) (length c)])"
    by simp
  from Cons.IH[OF this] Cons.prems show ?case by auto
qed

lemma OutputManager_append_consistent:
  assumes "rows_consistent k om" and "length (columns line) = k" and "0 < k"
  shows "\<exists>om'. OutputManager_append om line = Inr om' \<and> rows_consistent k om'
               \<and> nocolor om' = nocolor om
               \<and> length (lines om') = Suc (length (lines om))"
proof (cases "num_columns om")
  case None
  obtain mcl' where m: "update_max (replicate k 0) 0 (columns line) = Inr mcl'"
    "length mcl' = k"
    using update_max_total[of 0 "columns line" "replicate k 0"] assms(2) by auto
  with None assms show ?thesis
    by (auto simp: OutputManager_append_def rows_consistent_def Let_def)
next
  case (Some n)
  with assms have n: "n = k" "length (max_column_lengths om) = k"
    by (auto simp: rows_consistent_def)
  obtain mcl' where m: "update_max (max_column_lengths om) 0 (columns line) = Inr mcl'"
    "length mcl' = k"
    using update_max_total[of 0 "columns line" "max_column_lengths om"] assms(2) n by auto
  with Some n assms show ?thesis
    by (auto simp: OutputManager_append_def rows_consistent_def Let_def)
qed

lemma num_cells_pos: "0 < num_cells m"
  by (simp add: num_cells_def)

lemma build_line_length:
  "build_line env m branch depth = Inr line \<Longrightarrow> length (columns line) = num_cells m"
  using build_line_columns[of env m branch depth line] by auto

lemma num_cells_cong:
  "verbosity m' = verbosity m \<Longrightarrow> show_subject m' = show_subject m \<Longrightarrow> num_cells m' = num_cells m"
  by (simp add: num_cells_def)

lemma traversal_consistent:
  "rows_consistent (num_cells m) (output_manager m) \<Longrightarrow>
     append_branch env m branch depth \<noteq> Inl AssertionError \<and>
     (\<forall>m'. append_branch env m branch depth = Inr m' \<longrightarrow>
        rows_consistent (num_cells m) (output_manager m') \<and> num_cells m' = num_cells m)"
  "rows_consistent (num_cells m) (output_manager m) \<Longrightarrow>
     append_branches env m bs depth \<noteq> Inl AssertionError \<and>
     (\<forall>m'. append_branches env m bs depth = Inr m' \<longrightarrow>
        rows_consistent (num_cells m) (output_manager m') \<and> num_cells m' = num_cells m)"
proof (induction env m branch depth and env m bs depth
       rule: append_branch_append_branches.induct)
  case (1 env m branch depth)
  show ?case
  proof (cases "build_line env m branch depth")
    case (Inl e)
    have "e \<noteq> AssertionError"
      using Inl
      by (auto simp: build_line_def getitem_def branch_hash_of_def color_for_branch_def
            review_column_def Let_def split: sum.splits option.splits if_splits)
    with Inl show ?thesis by (simp add: append_branch.simps)
  next
    case (Inr line)
    from OutputManager_append_consistent[OF "1.prems" build_line_length[OF Inr] num_cells_pos]
    obtain om where om: "OutputManager_append (output_manager m) line = Inr om"
      "rows_consistent (num_cells m) om" by auto
    let ?m1 = "m\<lparr>output_manager := om, visited := visited m @ [(branch, depth)],
                  parent_map := AList.delete branch (parent_map m)\<rparr>"
    have nc: "num_cells ?m1 = num_cells m" by (simp add: num_cells_def)
    have "rows_consistent (num_cells ?m1) (output_manager ?m1)"
      using om(2) nc by simp
    from "1.IH"[OF Inr om(1) this] nc Inr om(1) show ?thesis
      by (simp add: append_branch.simps)
  qed
next
  case (2 env m depth)
  then show ?case by simp
next
  case (3 env m child rest depth)
  show ?case
  proof (cases "append_branch env m child depth")
    case (Inl e)
    with "3.IH"(1)[OF "3.prems"] show ?thesis by auto
  next
    case (Inr m1)
    with "3.IH"(1)[OF "3.prems"] have
      a: "rows_consistent (num_cells m) (output_manager m1)" "num_cells m1 = num_cells m"
      by auto
    then have "rows_consistent (num_cells m1) (output_manager m1)" by simp
    from "3.IH"(2)[OF Inr this] a Inr show ?thesis by auto
  qed
qed

lemma build_step_keeps:
  "build_step env (roots, m) item = Inr (roots', m') \<Longrightarrow>
     output_manager m' = output_manager m \<and> verbosity m' = verbosity m
       \<and> show_subject m' = show_subject m \<and> branches_info m' = branches_info m
       \<and> status_info m' = status_info m \<and> visited m' = visited m"
  by (cases item) (auto simp: build_step_def Let_def split: option.splits sum.splits if_splits)

lemma build_step_error:
  "build_step env rm item = Inl e \<Longrightarrow> e = KeyError"
  by (cases rm, cases item)
     (auto simp: build_step_def getitem_def Let_def split: option.splits sum.splits if_splits)

lemma build_loop_keeps:
  "build_loop env (roots, m) items = Inr (roots', m') \<Longrightarrow>
     output_manager m' = output_manager m \<and> verbosity m' = verbosity m
       \<and> show_subject m' = show_subject m \<and> branches_info m' = branches_info m
       \<and> status_info m' = status_info m \<and> visited m' = visited m"
proof (induction items arbitrary: roots m)
  case Nil
  then show ?case by simp
next
  case (Cons item items)
  from Cons.prems obtain r1 m1 where
    s: "build_step env (roots, m) item = Inr (r1, m1)" and
    l: "build_loop env (r1, m1) items = Inr (roots', m')"
    by (auto split: sum.splits)
  from build_step_keeps[OF s] Cons.IH[OF l] show ?case by simp
qed

lemma build_loop_error:
  "build_loop env rm items = Inl e \<Longrightarrow> e = KeyError"
  by (induction items arbitrary: rm) (auto split: sum.splits dest: build_step_error)

lemma fetch_statuses_error:
  "fetch_statuses env n it si = Inl e \<Longrightarrow> e = StopIteration"
  by (induction env n it si rule: fetch_statuses.induct) auto

lemma rows_consistent_init: "rows_consistent k (OutputManager_init\<lparr>nocolor := nc\<rparr>)"
  by (simp add: rows_consistent_def OutputManager_init_def)

lemma start_cases:
  obtains (early) e where "start env m0 = Inl e" "e \<noteq> AssertionError"
  | (built) si roots m1 head where
      "build_loop env
         ([], m0\<lparr>branches_info := git_branches_info env (1 \<le> verbosity m0), status_info := si\<rparr>)
         (git_branches_info env (1 \<le> verbosity m0)) = Inr (roots, m1)"
      "git_hash_one env ''HEAD'' = Some head"
      "start env m0 =
         (if roots \<noteq> []
          then append_branches env
                 (m1\<lparr>current_branch := git_current_branch env, current_hash := head,
                     tag_set := git_tags env\<rparr>) (sort roots) 0
          else (case OutputManager_append (output_manager m1) no_branches of
                  Inl e \<Rightarrow> Inl e
                | Inr om \<Rightarrow>
                    Inr (m1\<lparr>current_branch := git_current_branch env, current_hash := head,
                            tag_set := git_tags env, output_manager := om\<rparr>)))"
proof -
  let ?bi = "git_branches_info env (1 \<le> verbosity m0)"
  let ?st = "(if 2 \<le> verbosity m0
               then fetch_statuses env (length ?bi)
                      (cl_statuses env (map fst ?bi) (2 < verbosity m0) (maxjobs m0))
                      (status_info m0)
               else Inr (status_info m0))"
  have unf: "start env m0 =
      (case ?st of
         Inl e \<Rightarrow> Inl e
       | Inr si \<Rightarrow>
        (case build_loop env ([], m0\<lparr>branches_info := ?bi, status_info := si\<rparr>) ?bi of
           Inl e \<Rightarrow> Inl e
         | Inr (roots, m) \<Rightarrow>
        (case git_hash_one env ''HEAD'' of
           None \<Rightarrow> Inl CalledProcessError
         | Some head \<Rightarrow>
             if roots \<noteq> []
             then append_branches env
                    (m\<lparr>current_branch := git_current_branch env, current_hash := head,
                       tag_set := git_tags env\<rparr>) (sort roots) 0
             else (case OutputManager_append (output_manager m) no_branches of
                     Inl e \<Rightarrow> Inl e
                   | Inr om \<Rightarrow>
                       Inr (m\<lparr>current_branch := git_current_branch env, current_hash := head,
                              tag_set := git_tags env, output_manager := om\<rparr>)))))"
    unfolding start_def Let_def
    by (simp cong: sum.case_cong option.case_cong prod.case_cong if_cong)
  show thesis
  proof (cases ?st)
    case (Inl e)
    then have "e = StopIteration" by (auto split: if_splits dest: fetch_statuses_error)
    moreover from Inl have "start env m0 = Inl e" unfolding unf by (simp only: sum.case)
    ultimately show thesis using early by simp
  next
    case (Inr si)
    note si = Inr
    show thesis
    proof (cases "build_loop env ([], m0\<lparr>branches_info := ?bi, status_info := si\<rparr>) ?bi")
      case (Inl e)
      then have "e = KeyError" by (rule build_loop_error)
      moreover from si Inl have "start env m0 = Inl e" unfolding unf by (simp only: sum.case)
      ultimately show thesis using early by simp
    next
      case (Inr rm)
      obtain roots m1 where rm: "rm = (roots, m1)" by (cases rm)
      show thesis
      proof (cases "git_hash_one env ''HEAD''")
        case None
        with si Inr rm have "start env m0 = Inl CalledProcessError"
          unfolding unf by (simp only: sum.case prod.case option.case)
        then show thesis using early by simp
      next
        case (Some head)
        with si Inr rm have "start env m0 =
         (if roots \<noteq> []
          then append_branches env
                 (m1\<lparr>current_branch := git_current_branch env, current_hash := head,
                     tag_set := git_tags env\<rparr>) (sort roots) 0
          else (case OutputManager_append (output_manager m1) no_branches of
                  Inl e \<Rightarrow> Inl e
                | Inr om \<Rightarrow>
                    Inr (m1\<lparr>current_branch := git_current_branch env, current_hash := head,
                            tag_set := git_tags env, output_manager := om\<rparr>)))"
          unfolding unf by (simp only: sum.case prod.case option.case)
        with Inr rm Some show thesis using built by simp
      qed
    qed
  qed
qed

text \<open>
  C6. In a run started by \<open>main\<close>, whatever the verbosity and the subject toggle, the
  assertion of \<^verbatim>\<open>OutputManager.append\<close> never fails, and all rows of the finished table
  have the same number of cells.
\<close>

theorem column_counts_agree:
  "start env (mapper_of_opts v nc mj ss) \<noteq> Inl AssertionError \<and>
   (\<forall>m. start env (mapper_of_opts v nc mj ss) = Inr m \<longrightarrow>
      (\<forall>l \<in> set (lines (output_manager m)). \<forall>l' \<in> set (lines (output_manager m)).
         length (columns l) = length (columns l')))"
proof (cases env "mapper_of_opts v nc mj ss" rule: start_cases)
  case (early e)
  then show ?thesis by simp
next
  case (built si roots m1 head)
  let ?m2 = "m1\<lparr>current_branch := git_current_branch env, current_hash := head,
                 tag_set := git_tags env\<rparr>"
  from build_loop_keeps[OF built(1)] have
    k: "output_manager m1 = OutputManager_init\<lparr>nocolor := nc\<rparr>"
    by (simp add: mapper_of_opts_def BranchMapper_init_def)
  show ?thesis
  proof (cases "roots = []")
    case True
    have "rows_consistent 1 (output_manager m1)"
      using k rows_consistent_init by simp
    from OutputManager_append_consistent[OF this, of no_branches]
    obtain om where "OutputManager_append (output_manager m1) no_branches = Inr om"
      "rows_consistent 1 om"
      by (auto simp: no_branches_def)
    with built(3) True show ?thesis
      by (auto simp: rows_consistent_def)
  next
    case False
    have "rows_consistent (num_cells ?m2) (output_manager ?m2)"
      using k rows_consistent_init by simp
    from traversal_consistent(2)[OF this, of env "sort roots" 0] built(3) False
    show ?thesis
      by (auto simp: rows_consistent_def)
  qed
qed

theorem column_counts_agree_witness:
  "start feature_git (mapper_of_opts 2 False None True) \<noteq> Inl AssertionError
   \<and> map_sum id (map (length \<circ> columns) \<circ> lines \<circ> output_manager)
         (start feature_git (mapper_of_opts 2 False None True)) = Inr [9, 9]"
proof -
  have r: "map_sum id (map (length \<circ> columns) \<circ> lines \<circ> output_manager)
             (start feature_git (mapper_of_opts 2 False None True)) = Inr [9, 9]"
    by code_simp
  then obtain m where m: "start feature_git (mapper_of_opts 2 False None True) = Inr m"
    by (cases "start feature_git (mapper_of_opts 2 False None True)") simp_all
  from column_counts_agree[of feature_git 2 False None True] m
  have "\<forall>l \<in> set (lines (output_manager m)). \<forall>l' \<in> set (lines (output_manager m)).
          length (columns l) = length (columns l')"
    by blast
  with column_counts_agree[of feature_git 2 False None True] r show ?thesis
    by simp
qed

section \<open>The no-colour mode (C7)\<close>

subsection \<open>Stripping trailing whitespace\<close>

lemma rstrip_append_nonspace:
  "\<exists>x \<in> set y. \<not> isspace x \<Longrightarrow> rstrip (x @ y) = x @ rstrip y"
  by (auto simp: rstrip_def)

lemma rstrip_append_space:
  "\<forall>x \<in> set y. isspace x \<Longrightarrow> rstrip (x @ y) = rstrip x"
  by (simp add: rstrip_def dropWhile_append)

lemma rstrip_last: "x \<noteq> [] \<Longrightarrow> \<not> isspace (last x) \<Longrightarrow> rstrip x = x"
  by (cases x rule: rev_cases) (simp_all add: rstrip_def)

lemma rstrip_set: "set (rstrip x) \<subseteq> set x"
  by (auto simp: rstrip_def dest: set_dropWhileD)

lemma rstrip_idem: "rstrip (rstrip x) = rstrip x"
  by (induction x rule: rev_induct) (auto simp: rstrip_def)

lemma rstrip_nonspace: "\<exists>x \<in> set y. \<not> isspace x \<Longrightarrow> \<exists>x \<in> set (rstrip y). \<not> isspace x"
  by (induction y rule: rev_induct) (auto simp: rstrip_def)

subsection \<open>Removing colour codes\<close>

lemma strip_plain: "ESC \<notin> set t \<Longrightarrow> strip_colors (t @ rest) = t @ strip_colors rest"
  by (induction t) auto

lemma strip_color:
  "is_color c \<Longrightarrow> strip_colors (c @ rest) = strip_colors rest"
  "in_params c \<Longrightarrow> in_sgr (c @ rest) = strip_colors rest"
proof (induction c and c rule: is_color_in_params.induct)
  case 1
  then show ?case by simp
next
  case (2 c cs)
  then obtain ds where "cs = CHR ''['' # ds" "in_params ds"
    by (cases cs) auto
  with 2 show ?case by simp
next
  case 3
  then show ?case by simp
next
  case (4 c cs)
  then show ?case by (auto split: if_splits)
qed

lemma color_last:
  "is_color c \<Longrightarrow> c \<noteq> [] \<Longrightarrow> last c = CHR ''m''"
  "in_params c \<Longrightarrow> last c = CHR ''m''"
proof (induction c and c rule: is_color_in_params.induct)
  case (2 c cs)
  then obtain ds where "cs = CHR ''['' # ds" "in_params ds"
    by (cases cs) auto
  with 2 show ?case by (cases ds) auto
next
  case (4 c cs)
  then show ?case by (cases cs) (auto split: if_splits)
qed simp_all

subsection \<open>One line\<close>

lemma isspace_space [simp]: "isspace (CHR '' '')" "\<not> isspace (CHR ''m'')"
  by (simp_all add: isspace_def)

lemma ESC_not_space [simp]: "ESC \<noteq> CHR '' ''"
  by (simp add: ESC_def)

lemma stripped_step:
  assumes r: "rstrip (strip_colors (rstrip A)) = rstrip B"
    and s: "\<And>x. strip_colors (A @ x) = B @ strip_colors x"
    and c: "is_color c" and b: "ESC \<notin> set b"
  shows "rstrip (strip_colors (rstrip (A @ c @ b))) = rstrip (B @ b)"
    and "strip_colors ((A @ c @ b) @ x) = (B @ b) @ strip_colors x"
proof -
  show "strip_colors ((A @ c @ b) @ x) = (B @ b) @ strip_colors x"
    using s[of "c @ b @ x"] strip_color(1)[OF c, of "b @ x"] strip_plain[OF b, of x] by simp
  show "rstrip (strip_colors (rstrip (A @ c @ b))) = rstrip (B @ b)"
  proof (cases "\<exists>x \<in> set b. \<not> isspace x")
    case True
    have "rstrip (A @ c @ b) = (A @ c) @ rstrip b"
      using rstrip_append_nonspace[OF True, of "A @ c"] by simp
    moreover have "ESC \<notin> set (rstrip b)" using b rstrip_set[of b] by auto
    then have "strip_colors (A @ c @ rstrip b) = B @ rstrip b"
      using s[of "c @ rstrip b"] strip_color(1)[OF c, of "rstrip b"]
        strip_plain[of "rstrip b" "[]"] by simp
    ultimately have "rstrip (strip_colors (rstrip (A @ c @ b))) = rstrip (B @ rstrip b)"
      by simp
    also have "\<dots> = B @ rstrip (rstrip b)"
      by (rule rstrip_append_nonspace) (rule rstrip_nonspace[OF True])
    also have "\<dots> = rstrip (B @ b)"
      using rstrip_append_nonspace[OF True, of B] by (simp add: rstrip_idem)
    finally show ?thesis .
  next
    case False
    then have sp: "\<forall>x \<in> set b. isspace x" by simp
    have rhs: "rstrip (B @ b) = rstrip B" by (rule rstrip_append_space[OF sp])
    show ?thesis
    proof (cases "c = []")
      case True
      then have "rstrip (A @ c @ b) = rstrip A"
        using rstrip_append_space[OF sp, of A] by simp
      with r rhs show ?thesis by simp
    next
      case False
      then have "\<not> isspace (last (A @ c))"
        using color_last(1)[OF c] by simp
      then have "rstrip (A @ c) = A @ c"
        using False by (intro rstrip_last) simp_all
      then have "rstrip (A @ c @ b) = A @ c"
        using rstrip_append_space[OF sp, of "A @ c"] by simp
      moreover have "strip_colors (A @ c) = B"
        using s[of c] strip_color(1)[OF c, of "[]"] by simp
      ultimately show ?thesis using rhs by simp
    qed
  qed
qed

lemma padded_loop_stripped:
  assumes "\<forall>(c, d, sp) \<in> set cells. is_color c \<and> ESC \<notin> set d \<and> ESC \<notin> set sp"
    and "rstrip (strip_colors (rstrip A)) = rstrip B"
    and "\<And>x. strip_colors (A @ x) = B @ strip_colors x"
    and "padded_loop mcl i cells A = Inr s"
  shows "\<exists>n. padded_loop mcl i (map (\<lambda>(c, d, sp). ([], d, sp)) cells) B = Inr n
             \<and> rstrip (strip_colors (rstrip s)) = rstrip n"
  using assms
proof (induction cells arbitrary: i A B)
  case Nil
  then show ?case by simp
next
  case (Cons cell cells)
  obtain c d sp where cell: "cell = (c, d, sp)" by (cases cell)
  from Cons.prems(1) cell have wf: "is_color c" "ESC \<notin> set d" "ESC \<notin> set sp"
    and wfs: "\<forall>(c, d, sp) \<in> set cells. is_color c \<and> ESC \<notin> set d \<and> ESC \<notin> set sp"
    by auto
  from Cons.prems(4) cell have i: "\<not> length mcl \<le> i"
    by (auto split: if_splits)
  show ?case
  proof (cases "mcl ! i = 0")
    case True
    with Cons.prems(4) cell i have "padded_loop mcl (Suc i) cells A = Inr s" by simp
    from Cons.IH[OF wfs Cons.prems(2) Cons.prems(3) this] True i cell show ?thesis by simp
  next
    case False
    let ?b = "d @ replicate (mcl ! i - length d) (CHR '' '') @ sp"
    have b: "ESC \<notin> set ?b" using wf by auto
    from Cons.prems(4) cell i False
    have l: "padded_loop mcl (Suc i) cells (A @ c @ ?b) = Inr s" by simp
    have "\<exists>n. padded_loop mcl (Suc i) (map (\<lambda>(c, d, sp). ([], d, sp)) cells) (B @ ?b) = Inr n
             \<and> rstrip (strip_colors (rstrip s)) = rstrip n"
      by (rule Cons.IH[OF wfs stripped_step[OF Cons.prems(2) Cons.prems(3) wf(1) b] l])
    with False i cell show ?thesis by simp
  qed
qed

lemma zip_blank:
  "length cs = length ds \<Longrightarrow>
     zip (replicate (length ds) []) (zip ds sps) = map (\<lambda>(c, d, sp). ([], d, sp)) (zip cs (zip ds sps))"
proof (induction cs ds arbitrary: sps rule: list_induct2)
  case Nil
  then show ?case by simp
next
  case (Cons c cs d ds)
  then show ?case by (cases sps) simp_all
qed

lemma as_padded_string_blank:
  assumes wf: "well_formed_row l" and s: "as_padded_string l mcl = Inr s"
  shows "as_padded_string (blank l) mcl = Inr (rstrip (strip_colors s))"
proof -
  let ?cells = "zip (colors l) (zip (columns l) (separators l))"
  from s obtain t where t: "padded_loop mcl 0 ?cells [] = Inr t" "s = rstrip t"
    by (auto simp: as_padded_string_def split: sum.splits)
  have cells: "\<forall>(c, d, sp) \<in> set ?cells. is_color c \<and> ESC \<notin> set d \<and> ESC \<notin> set sp"
  proof clarify
    fix c d sp
    assume m: "(c, d, sp) \<in> set ?cells"
    then have 1: "c \<in> set (colors l)" by (rule set_zip_leftD)
    from m have m2: "(d, sp) \<in> set (zip (columns l) (separators l))" by (rule set_zip_rightD)
    from m2 have 2: "d \<in> set (columns l)" by (rule set_zip_leftD)
    from m2 have 3: "sp \<in> set (separators l)" by (rule set_zip_rightD)
    from 1 2 3 wf show "is_color c \<and> ESC \<notin> set d \<and> ESC \<notin> set sp"
      by (simp add: well_formed_row_def list_all_iff)
  qed
  have "\<exists>n. padded_loop mcl 0 (map (\<lambda>(c, d, sp). ([], d, sp)) ?cells) [] = Inr n
             \<and> rstrip (strip_colors (rstrip t)) = rstrip n"
    by (rule padded_loop_stripped[OF cells _ _ t(1)]) (simp_all add: rstrip_def)
  then obtain n where n: "padded_loop mcl 0 (map (\<lambda>(c, d, sp). ([], d, sp)) ?cells) [] = Inr n"
    "rstrip (strip_colors (rstrip t)) = rstrip n" by blast
  have "zip (colors (blank l)) (zip (columns (blank l)) (separators (blank l)))
        = map (\<lambda>(c, d, sp). ([], d, sp)) ?cells"
    using wf zip_blank[of "colors l" "columns l" "separators l"]
    by (simp add: blank_def well_formed_row_def)
  with n t show ?thesis by (simp add: as_padded_string_def)
qed

subsection \<open>The table\<close>

lemma OutputManager_append_decolor:
  assumes "nocolor om = False" and "OutputManager_append om l = Inr om'"
  shows "OutputManager_append (decolor om) l = Inr (decolor om')"
    and "nocolor om' = False" and "lines om' = lines om @ [l]"
  using assms
  by (auto simp: OutputManager_append_def decolor_def blank_def Let_def
        split: if_splits sum.splits)

lemma append_all_decolor:
  assumes "nocolor om = False" and "append_all om rows = Inr om'"
  shows "append_all (decolor om) rows = Inr (decolor om') \<and> lines om' = lines om @ rows"
  using assms
proof (induction rows arbitrary: om)
  case Nil
  then show ?case by simp
next
  case (Cons l rows)
  from Cons.prems(2) obtain om1 where
    a: "OutputManager_append om l = Inr om1" and b: "append_all om1 rows = Inr om'"
    by (auto split: sum.splits)
  from OutputManager_append_decolor[OF Cons.prems(1) a] Cons.IH[OF _ b]
  show ?case by simp
qed

lemma padded_lines_blank:
  assumes "list_all well_formed_row ls" and "padded_lines mcl ls = Inr cs"
  shows "padded_lines mcl (map blank ls) = Inr (map (rstrip \<circ> strip_colors) cs)"
  using assms
proof (induction ls arbitrary: cs)
  case Nil
  then show ?case by simp
next
  case (Cons l ls)
  from Cons.prems(2) obtain s ss where
    s: "as_padded_string l mcl = Inr s" and ss: "padded_lines mcl ls = Inr ss"
    and cs: "cs = s # ss"
    by (auto split: sum.splits)
  from Cons.prems(1) have wf: "well_formed_row l" "list_all well_formed_row ls" by simp_all
  from as_padded_string_blank[OF wf(1) s] Cons.IH[OF wf(2) ss] cs show ?case by simp
qed

lemma decolor_init: "decolor OutputManager_init = OutputManager_init\<lparr>nocolor := True\<rparr>"
  by (simp add: decolor_def OutputManager_init_def)

text \<open>
  C7, as the code has it. For rows with colour tags as colours and no escape character in
  texts and separators, every line of the table formatted in no-colour mode is the line
  of the coloured table with its colour codes removed and the trailing whitespace, which
  that removal lays bare, stripped. Column widths and inner spacing are the same.
\<close>

theorem nocolor_strips_colors:
  assumes "list_all well_formed_row rows"
    and "append_all OutputManager_init rows = Inr omc"
    and "padded_lines (max_column_lengths omc) (lines omc) = Inr cs"
  shows "\<exists>omn. append_all (OutputManager_init\<lparr>nocolor := True\<rparr>) rows = Inr omn
           \<and> padded_lines (max_column_lengths omn) (lines omn)
               = Inr (map (rstrip \<circ> strip_colors) cs)"
proof -
  have n: "nocolor OutputManager_init = False" by (simp add: OutputManager_init_def)
  from append_all_decolor[OF n assms(2)] have
    a: "append_all (OutputManager_init\<lparr>nocolor := True\<rparr>) rows = Inr (decolor omc)"
    by (simp add: decolor_init)
  from append_all_decolor[OF n assms(2)] have l: "lines omc = rows"
    by (simp add: OutputManager_init_def)
  from padded_lines_blank[of "lines omc" "max_column_lengths omc" cs] assms(1,3) l
  have "padded_lines (max_column_lengths (decolor omc)) (lines (decolor omc))
          = Inr (map (rstrip \<circ> strip_colors) cs)"
    by (simp add: decolor_def)
  with a show ?thesis by blast
qed

theorem nocolor_strips_colors_witness:
  "list_all well_formed_row demo_rows
   \<and> append_all OutputManager_init demo_rows
       = Inr \<lparr>lines = demo_rows, nocolor = False, max_column_lengths = [6, 1],
              num_columns = Some 2\<rparr>
   \<and> padded_lines [6, 1] demo_rows
       = Inr [Fore_GREEN @ Style_NORMAL @ ''master    '' @ Fore_WHITE,
              Fore_GREEN @ Style_NORMAL @ ''topic     '' @ Fore_WHITE @ ''['']
   \<and> (\<exists>omn. append_all (OutputManager_init\<lparr>nocolor := True\<rparr>) demo_rows = Inr omn
           \<and> padded_lines (max_column_lengths omn) (lines omn) = Inr [''master'', ''topic     [''])"
proof -
  have w: "list_all well_formed_row demo_rows"
    by code_simp
  have a: "append_all OutputManager_init demo_rows
       = Inr \<lparr>lines = demo_rows, nocolor = False, max_column_lengths = [6, 1],
              num_columns = Some 2\<rparr>"
    by code_simp
  have p: "padded_lines
             (max_column_lengths \<lparr>lines = demo_rows, nocolor = False,
                max_column_lengths = [6, 1], num_columns = Some 2\<rparr>)
             (lines \<lparr>lines = demo_rows, nocolor = False,
                max_column_lengths = [6, 1], num_columns = Some 2\<rparr>)
       = Inr [Fore_GREEN @ Style_NORMAL @ ''master    '' @ Fore_WHITE,
              Fore_GREEN @ Style_NORMAL @ ''topic     '' @ Fore_WHITE @ ''['']"
    by code_simp
  have e: "map (rstrip \<circ> strip_colors)
             [Fore_GREEN @ Style_NORMAL @ ''master    '' @ Fore_WHITE,
              Fore_GREEN @ Style_NORMAL @ ''topic     '' @ Fore_WHITE @ ''['']
           = [''master'', ''topic     ['']"
    by code_simp
  from nocolor_strips_colors[OF w a p] w a p show ?thesis
    unfolding e by simp
qed

text \<open>
  Removing the colour codes alone does not give the uncoloured text: in the coloured
  table the padding of empty cells is kept in front of the last colour code, where
  \<^verbatim>\<open>rstrip\<close> stops.
\<close>

theorem nocolor_text_counterexample:
  "map_sum id strip_colors (main feature_git 1 False None False)
     = Inr (''origin/master'' @ replicate 14 (CHR '' '') @ [CHR 0x0A]
            @ ''  feature *      [ ahead 3 ]'')
   \<and> main feature_git 1 True None False
     = Inr (''origin/master'' @ [CHR 0x0A] @ ''  feature *      [ ahead 3 ]'')
   \<and> map_sum id strip_colors (main feature_git 1 False None False)
     \<noteq> main feature_git 1 True None False"
  by code_simp

section \<open>One row for each branch reached from a root (C1)\<close>

subsection \<open>What a traversal visits and consumes\<close>

lemma delete_filter: "AList.delete k pm = filter (\<lambda>e. fst e \<noteq> k) pm"
  by (induction pm) auto

lemma all_children_delete:
  "distinct (map fst pm) \<Longrightarrow>
     mset (all_children (AList.delete b pm)) + mset (children_of pm b) = mset (all_children pm)"
proof (induction pm)
  case Nil
  then show ?case by (simp add: all_children_def children_of_def)
next
  case (Cons e pm)
  obtain k cs where e: "e = (k, cs)" by (cases e)
  show ?case
  proof (cases "k = b")
    case True
    with Cons.prems e have "b \<notin> fst ` set pm" by auto
    then have "AList.delete b pm = pm" by simp
    with True e show ?thesis by (simp add: all_children_def children_of_def)
  next
    case False
    with Cons e show ?thesis by (simp add: all_children_def children_of_def)
  qed
qed

lemma traversal_trace:
  "distinct (map fst (parent_map m)) \<Longrightarrow> append_branch env m branch depth = Inr m' \<Longrightarrow>
     \<exists>new. visited m' = visited m @ new
       \<and> parent_map m' = filter (\<lambda>e. fst e \<notin> fst ` set new) (parent_map m)
       \<and> mset (map fst new) + mset (all_children (parent_map m'))
           = {#branch#} + mset (all_children (parent_map m))"
  "distinct (map fst (parent_map m)) \<Longrightarrow> append_branches env m bs depth = Inr m' \<Longrightarrow>
     \<exists>new. visited m' = visited m @ new
       \<and> parent_map m' = filter (\<lambda>e. fst e \<notin> fst ` set new) (parent_map m)
       \<and> mset (map fst new) + mset (all_children (parent_map m'))
           = mset bs + mset (all_children (parent_map m))"
proof (induction env m branch depth and env m bs depth arbitrary: m' and m'
       rule: append_branch_append_branches.induct)
  case (1 env m branch depth)
  from "1.prems"(2) obtain line om where
    l: "build_line env m branch depth = Inr line" and
    o: "OutputManager_append (output_manager m) line = Inr om" and
    r: "append_branches env
          (m\<lparr>output_manager := om, visited := visited m @ [(branch, depth)],
             parent_map := AList.delete branch (parent_map m)\<rparr>)
          (sort (children_of (parent_map m) branch)) (depth + 1) = Inr m'"
    by (auto simp: append_branch.simps split: sum.splits)
  let ?m1 = "m\<lparr>output_manager := om, visited := visited m @ [(branch, depth)],
               parent_map := AList.delete branch (parent_map m)\<rparr>"
  have d1: "distinct (map fst (parent_map ?m1))"
    using "1.prems"(1) by (simp add: distinct_delete)
  from "1.IH"[OF l o d1 r] obtain new where
    v: "visited m' = visited ?m1 @ new" and
    p: "parent_map m' = filter (\<lambda>e. fst e \<notin> fst ` set new) (parent_map ?m1)" and
    c: "mset (map fst new) + mset (all_children (parent_map m'))
          = mset (sort (children_of (parent_map m) branch)) + mset (all_children (parent_map ?m1))"
    by blast
  let ?new = "(branch, depth) # new"
  have "visited m' = visited m @ ?new" using v by simp
  moreover have "parent_map m' = filter (\<lambda>e. fst e \<notin> fst ` set ?new) (parent_map m)"
    using p by (auto simp: delete_filter intro: filter_cong)
  moreover have "mset (map fst ?new) + mset (all_children (parent_map m'))
           = {#branch#} + mset (all_children (parent_map m))"
    using c all_children_delete[OF "1.prems"(1), of branch] by (simp add: ac_simps)
  ultimately show ?case by blast
next
  case (2 env m depth)
  then show ?case by simp
next
  case (3 env m child rest depth)
  from "3.prems"(2) obtain m1 where
    a: "append_branch env m child depth = Inr m1" and
    b: "append_branches env m1 rest depth = Inr m'"
    by (auto split: sum.splits)
  from "3.IH"(1)[OF "3.prems"(1) a] obtain new1 where
    v1: "visited m1 = visited m @ new1" and
    p1: "parent_map m1 = filter (\<lambda>e. fst e \<notin> fst ` set new1) (parent_map m)" and
    c1: "mset (map fst new1) + mset (all_children (parent_map m1))
           = {#child#} + mset (all_children (parent_map m))"
    by blast
  have d1: "distinct (map fst (parent_map m1))"
    using "3.prems"(1) p1 by (simp add: distinct_map_filter)
  from "3.IH"(2)[OF a d1 b] obtain new2 where
    v2: "visited m' = visited m1 @ new2" and
    p2: "parent_map m' = filter (\<lambda>e. fst e \<notin> fst ` set new2) (parent_map m1)" and
    c2: "mset (map fst new2) + mset (all_children (parent_map m'))
           = mset rest + mset (all_children (parent_map m1))"
    by blast
  let ?new = "new1 @ new2"
  have "visited m' = visited m @ ?new" using v1 v2 by simp
  moreover have "parent_map m' = filter (\<lambda>e. fst e \<notin> fst ` set ?new) (parent_map m)"
    using p1 p2 by (auto intro: filter_cong)
  moreover have "mset (map fst ?new) + mset (all_children (parent_map m'))
           = mset (child # rest) + mset (all_children (parent_map m))"
  proof -
    have "mset (map fst ?new) + mset (all_children (parent_map m'))
            = mset (map fst new1) + (mset (map fst new2) + mset (all_children (parent_map m')))"
      by simp
    also have "\<dots> = mset (map fst new1) + (mset rest + mset (all_children (parent_map m1)))"
      using c2 by simp
    also have "\<dots> = mset rest + (mset (map fst new1) + mset (all_children (parent_map m1)))"
      by simp
    also have "\<dots> = mset rest + ({#child#} + mset (all_children (parent_map m)))"
      using c1 by simp
    finally show ?thesis by simp
  qed
  ultimately show ?case by blast
qed

lemma traversal_frame:
  "append_branch env m branch depth = Inr m' \<Longrightarrow>
     gone_branches m' = gone_branches m \<and> current_branch m' = current_branch m
       \<and> current_hash m' = current_hash m"
  "append_branches env m bs depth = Inr m' \<Longrightarrow>
     gone_branches m' = gone_branches m \<and> current_branch m' = current_branch m
       \<and> current_hash m' = current_hash m"
proof (induction env m branch depth and env m bs depth arbitrary: m' and m'
       rule: append_branch_append_branches.induct)
  case (1 env m branch depth)
  from "1.prems" obtain line om where
    l: "build_line env m branch depth = Inr line" and
    o: "OutputManager_append (output_manager m) line = Inr om" and
    r: "append_branches env
          (m\<lparr>output_manager := om, visited := visited m @ [(branch, depth)],
             parent_map := AList.delete branch (parent_map m)\<rparr>)
          (sort (children_of (parent_map m) branch)) (depth + 1) = Inr m'"
    by (auto simp: append_branch.simps split: sum.splits)
  from "1.IH"[OF l o r] show ?case by simp
next
  case (2 env m depth)
  then show ?case by simp
next
  case (3 env m child rest depth)
  from "3.prems" obtain m1 where
    a: "append_branch env m child depth = Inr m1" and
    b: "append_branches env m1 rest depth = Inr m'"
    by (auto split: sum.splits)
  from "3.IH"(1)[OF a] "3.IH"(2)[OF a b] show ?case by simp
qed

lemma main_string_frame:
  "gone_branches m' = gone_branches m \<Longrightarrow> current_branch m' = current_branch m \<Longrightarrow>
     current_hash m' = current_hash m \<Longrightarrow> main_string m' = main_string m"
  by (intro ext) (simp add: main_string_def)

lemma OutputManager_append_lines:
  "OutputManager_append om line = Inr om' \<Longrightarrow>
     \<exists>line1. lines om' = lines om @ [line1] \<and> columns line1 = columns line"
  by (auto simp: OutputManager_append_def Let_def split: if_splits sum.splits)

lemma traversal_rows:
  "names_match_rows m \<Longrightarrow> append_branch env m branch depth = Inr m' \<Longrightarrow> names_match_rows m'"
  "names_match_rows m \<Longrightarrow> append_branches env m bs depth = Inr m' \<Longrightarrow> names_match_rows m'"
proof (induction env m branch depth and env m bs depth arbitrary: m' and m'
       rule: append_branch_append_branches.induct)
  case (1 env m branch depth)
  from "1.prems"(2) obtain line om where
    l: "build_line env m branch depth = Inr line" and
    o: "OutputManager_append (output_manager m) line = Inr om" and
    r: "append_branches env
          (m\<lparr>output_manager := om, visited := visited m @ [(branch, depth)],
             parent_map := AList.delete branch (parent_map m)\<rparr>)
          (sort (children_of (parent_map m) branch)) (depth + 1) = Inr m'"
    by (auto simp: append_branch.simps split: sum.splits)
  let ?m1 = "m\<lparr>output_manager := om, visited := visited m @ [(branch, depth)],
               parent_map := AList.delete branch (parent_map m)\<rparr>"
  from OutputManager_append_lines[OF o] obtain line1 where
    l1: "lines om = lines (output_manager m) @ [line1]" "columns line1 = columns line"
    by blast
  from build_line_columns[OF l] have h: "hd (columns line) = main_string m branch depth"
    by auto
  have ms: "main_string ?m1 = main_string m"
    by (rule main_string_frame) simp_all
  have "names_match_rows ?m1"
    using "1.prems"(1) l1 h by (simp add: names_match_rows_def ms)
  from "1.IH"[OF l o this r] show ?case .
next
  case (2 env m depth)
  then show ?case by simp
next
  case (3 env m child rest depth)
  from "3.prems"(2) obtain m1 where
    a: "append_branch env m child depth = Inr m1" and
    b: "append_branches env m1 rest depth = Inr m'"
    by (auto split: sum.splits)
  from "3.IH"(2)[OF a "3.IH"(1)[OF "3.prems"(1) a] b] show ?case .
qed

lemma map_of_filter_keys:
  "map_of (filter (\<lambda>e. fst e \<notin> S) pm) p = (if p \<in> S then None else map_of pm p)"
  by (induction pm) auto

lemma children_of_filter:
  "set (children_of (filter (\<lambda>e. fst e \<notin> S) pm) p) \<subseteq> set (children_of pm p)"
  by (simp add: children_of_def map_of_filter_keys)

lemma reached_filter:
  "reached (filter (\<lambda>e. fst e \<notin> S) pm) rs n \<Longrightarrow> reached pm rs n"
proof (induction rule: reached.induct)
  case (root r)
  then show ?case by (rule reached.root)
next
  case (child p c)
  from child.hyps(2) children_of_filter[of S pm p] have "c \<in> set (children_of pm p)" by blast
  with child.IH show ?case by (rule reached.child)
qed

lemma reached_mono:
  "reached pm rs n \<Longrightarrow> (\<And>r. r \<in> set rs \<Longrightarrow> reached pm rs' r) \<Longrightarrow> reached pm rs' n"
  by (induction rule: reached.induct) (auto intro: reached.child)

lemma traversal_reached:
  "distinct (map fst (parent_map m)) \<Longrightarrow> append_branch env m branch depth = Inr m' \<Longrightarrow>
     \<forall>n \<in> fst ` set (visited m').
       n \<in> fst ` set (visited m) \<or> reached (parent_map m) [branch] n"
  "distinct (map fst (parent_map m)) \<Longrightarrow> append_branches env m bs depth = Inr m' \<Longrightarrow>
     \<forall>n \<in> fst ` set (visited m').
       n \<in> fst ` set (visited m) \<or> reached (parent_map m) bs n"
proof (induction env m branch depth and env m bs depth arbitrary: m' and m'
       rule: append_branch_append_branches.induct)
  case (1 env m branch depth)
  from "1.prems"(2) obtain line om where
    l: "build_line env m branch depth = Inr line" and
    o: "OutputManager_append (output_manager m) line = Inr om" and
    r: "append_branches env
          (m\<lparr>output_manager := om, visited := visited m @ [(branch, depth)],
             parent_map := AList.delete branch (parent_map m)\<rparr>)
          (sort (children_of (parent_map m) branch)) (depth + 1) = Inr m'"
    by (auto simp: append_branch.simps split: sum.splits)
  let ?m1 = "m\<lparr>output_manager := om, visited := visited m @ [(branch, depth)],
               parent_map := AList.delete branch (parent_map m)\<rparr>"
  have d1: "distinct (map fst (parent_map ?m1))"
    using "1.prems"(1) by (simp add: distinct_delete)
  note ih = "1.IH"[OF l o d1 r]
  have b: "reached (parent_map m) [branch] branch"
    by (rule reached.root) simp
  show ?case
  proof
    fix n assume "n \<in> fst ` set (visited m')"
    with ih have "n \<in> fst ` set (visited ?m1)
        \<or> reached (parent_map ?m1) (sort (children_of (parent_map m) branch)) n"
      by blast
    then show "n \<in> fst ` set (visited m) \<or> reached (parent_map m) [branch] n"
    proof
      assume "n \<in> fst ` set (visited ?m1)"
      then have "n \<in> fst ` set (visited m) \<or> n = branch" by auto
      with b show ?thesis by auto
    next
      assume "reached (parent_map ?m1) (sort (children_of (parent_map m) branch)) n"
      then have "reached (filter (\<lambda>e. fst e \<notin> {branch}) (parent_map m))
                   (sort (children_of (parent_map m) branch)) n"
        by (simp add: delete_filter)
      then have "reached (parent_map m) (sort (children_of (parent_map m) branch)) n"
        by (rule reached_filter)
      then have "reached (parent_map m) [branch] n"
      proof (rule reached_mono)
        fix r assume "r \<in> set (sort (children_of (parent_map m) branch))"
        then have "r \<in> set (children_of (parent_map m) branch)" by simp
        with b show "reached (parent_map m) [branch] r" by (rule reached.child)
      qed
      then show ?thesis ..
    qed
  qed
next
  case (2 env m depth)
  then show ?case by simp
next
  case (3 env m child rest depth)
  from "3.prems"(2) obtain m1 where
    a: "append_branch env m child depth = Inr m1" and
    b: "append_branches env m1 rest depth = Inr m'"
    by (auto split: sum.splits)
  from traversal_trace(1)[OF "3.prems"(1) a] obtain new1 where
    v1: "visited m1 = visited m @ new1" and
    p1: "parent_map m1 = filter (\<lambda>e. fst e \<notin> fst ` set new1) (parent_map m)" and
    c1: "mset (map fst new1) + mset (all_children (parent_map m1))
           = {#child#} + mset (all_children (parent_map m))"
    by blast
  have d1: "distinct (map fst (parent_map m1))"
    using "3.prems"(1) p1 by (simp add: distinct_map_filter)
  note ih1 = "3.IH"(1)[OF "3.prems"(1) a]
  note ih2 = "3.IH"(2)[OF a d1 b]
  show ?case
  proof
    fix n assume "n \<in> fst ` set (visited m')"
    with ih2 have "n \<in> fst ` set (visited m1) \<or> reached (parent_map m1) rest n" by blast
    then show "n \<in> fst ` set (visited m) \<or> reached (parent_map m) (child # rest) n"
    proof
      assume "n \<in> fst ` set (visited m1)"
      with ih1 have "n \<in> fst ` set (visited m) \<or> reached (parent_map m) [child] n" by blast
      then show ?thesis
      proof
        assume "reached (parent_map m) [child] n"
        then have "reached (parent_map m) (child # rest) n"
          by (rule reached_mono) (auto intro: reached.root)
        then show ?thesis ..
      qed simp
    next
      assume "reached (parent_map m1) rest n"
      then have "reached (parent_map m) rest n"
        unfolding p1 by (rule reached_filter)
      then have "reached (parent_map m) (child # rest) n"
        by (rule reached_mono) (auto intro: reached.root)
      then show ?thesis ..
    qed
  qed
qed

subsection \<open>The forest that the builder leaves\<close>

lemma all_children_update:
  "mset (all_children (AList.update p (children_of pm p @ [b]) pm))
     = mset (all_children pm) + {#b#}"
  by (induction pm) (auto simp: all_children_def children_of_def)

lemma has_info_iff: "has_info bi n \<longleftrightarrow> (\<exists>info. map_of bi n = Some (Some info))"
  by (auto simp: has_info_def split: option.splits)

lemma build_step_forest:
  assumes s: "build_step env (roots, m) item = Inr (roots', m')"
    and bi: "branches_info m = bi"
    and h: "case item of (b, i) \<Rightarrow>
              (case i of
                 None \<Rightarrow> True
               | Some info \<Rightarrow>
                   map_of bi (upstream info) = Some None \<longrightarrow>
                   truthy (git_upstream env b) \<longrightarrow>
                   \<not> has_info bi (the (git_upstream env b)))"
    and d: "distinct (map fst (parent_map m))" "distinct roots"
    and r: "\<forall>r \<in> set roots. \<not> has_info bi r"
  shows "distinct (map fst (parent_map m'))" and "distinct roots'"
    and "\<forall>r \<in> set roots'. \<not> has_info bi r"
    and "mset (all_children (parent_map m'))
           = mset (all_children (parent_map m)) + mset (local_names [item])"
proof -
  obtain b i where item: "item = (b, i)" by (cases item)
  show "distinct (map fst (parent_map m'))"
    using s d(1) item
    by (auto simp: build_step_def Let_def distinct_update
          split: option.splits sum.splits if_splits)
  show "distinct roots'"
    using s d(2) item
    by (auto simp: build_step_def Let_def split: option.splits sum.splits if_splits)
  show "\<forall>r \<in> set roots'. \<not> has_info bi r"
    using s r h bi item
    by (auto simp: build_step_def Let_def getitem_def has_info_iff
          split: option.splits sum.splits if_splits)
  show "mset (all_children (parent_map m'))
           = mset (all_children (parent_map m)) + mset (local_names [item])"
    using s item
    by (auto simp: build_step_def Let_def local_names_def all_children_update
          split: option.splits sum.splits if_splits)
qed

lemma local_names_Cons: "local_names (item # items) = local_names [item] @ local_names items"
  by (simp add: local_names_def)

lemma build_loop_forest:
  assumes "build_loop env (roots, m) items = Inr (roots', m')"
    and "branches_info m = bi"
    and "list_all (\<lambda>(b, i). case i of
                 None \<Rightarrow> True
               | Some info \<Rightarrow>
                   map_of bi (upstream info) = Some None \<longrightarrow>
                   truthy (git_upstream env b) \<longrightarrow>
                   \<not> has_info bi (the (git_upstream env b))) items"
    and "distinct (map fst (parent_map m))" "distinct roots"
    and "\<forall>r \<in> set roots. \<not> has_info bi r"
  shows "distinct (map fst (parent_map m')) \<and> distinct roots'
    \<and> (\<forall>r \<in> set roots'. \<not> has_info bi r)
    \<and> mset (all_children (parent_map m'))
           = mset (all_children (parent_map m)) + mset (local_names items)"
  using assms
proof (induction items arbitrary: roots m)
  case Nil
  then show ?case by (simp add: local_names_def)
next
  case (Cons item items)
  from Cons.prems(1) obtain r1 m1 where
    s: "build_step env (roots, m) item = Inr (r1, m1)" and
    l: "build_loop env (r1, m1) items = Inr (roots', m')"
    by (auto split: sum.splits)
  from Cons.prems(3) have h: "case item of (b, i) \<Rightarrow>
              (case i of
                 None \<Rightarrow> True
               | Some info \<Rightarrow>
                   map_of bi (upstream info) = Some None \<longrightarrow>
                   truthy (git_upstream env b) \<longrightarrow>
                   \<not> has_info bi (the (git_upstream env b)))"
    and hs: "list_all (\<lambda>(b, i). case i of
                 None \<Rightarrow> True
               | Some info \<Rightarrow>
                   map_of bi (upstream info) = Some None \<longrightarrow>
                   truthy (git_upstream env b) \<longrightarrow>
                   \<not> has_info bi (the (git_upstream env b))) items"
    by simp_all
  note f = build_step_forest[OF s Cons.prems(2) h Cons.prems(4) Cons.prems(5) Cons.prems(6)]
  have bi1: "branches_info m1 = bi"
    using build_step_keeps[OF s] Cons.prems(2) by simp
  from Cons.IH[OF l bi1 hs f(1) f(2) f(3)] f(4) show ?case
    by (simp add: local_names_Cons[of item items])
qed

lemma reached_no_roots: "\<not> reached pm [] n"
proof
  assume "reached pm [] n"
  then show False by (induction rule: reached.induct) simp_all
qed

lemma reached_misses:
  assumes "reached pm rs n" and "S \<inter> set rs = {}"
    and "\<forall>p c. c \<in> S \<longrightarrow> c \<in> set (children_of pm p) \<longrightarrow> p \<in> S"
  shows "n \<notin> S"
  using assms by (induction rule: reached.induct) auto

lemma children_of_update:
  "children_of (AList.update p v pm) q = (if q = p then v else children_of pm q)"
  by (simp add: children_of_def update_conv')

lemma build_step_roots:
  assumes s: "build_step env (roots, m) item = Inr (roots', m')"
    and bi: "branches_info m = bi"
    and h: "case item of (b, i) \<Rightarrow>
              (case i of
                 None \<Rightarrow> True
               | Some info \<Rightarrow>
                   map_of bi (upstream info) = Some None \<longrightarrow>
                   truthy (git_upstream env b) \<longrightarrow>
                   \<not> has_info bi (the (git_upstream env b)))"
    and r: "set roots = {p \<in> fst ` set (parent_map m). \<not> has_info bi p}"
  shows "set roots' = {p \<in> fst ` set (parent_map m'). \<not> has_info bi p}"
proof -
  obtain b i where item: "item = (b, i)" by (cases item)
  show ?thesis
  proof (cases i)
    case None
    with s item r show ?thesis by (simp add: build_step_def)
  next
    case (Some info)
    from s item Some bi obtain pinfo where
      g: "map_of bi (upstream info) = Some pinfo"
      by (auto simp: build_step_def getitem_def Let_def split: option.splits)
    show ?thesis
    proof (cases pinfo)
      case None
      let ?p = "if truthy (git_upstream env b) then the (git_upstream env b) else upstream info"
      have np: "\<not> has_info bi ?p"
        using h item Some g None by (auto simp: has_info_iff)
      from s item Some bi g None have
        r': "roots' = List.insert ?p roots" and
        p': "parent_map m' = AList.update ?p (children_of (parent_map m) ?p @ [b]) (parent_map m)"
        by (auto simp: build_step_def getitem_def Let_def split: if_splits)
      have "fst ` set (parent_map m') = insert ?p (fst ` set (parent_map m))"
        unfolding p' by (simp only: dom_update) simp
      with r r' np show ?thesis by auto
    next
      case (Some pi)
      have hp: "has_info bi (upstream info)"
        using g Some by (simp add: has_info_iff)
      from s item \<open>i = Some info\<close> bi g Some have
        r': "roots' = roots" and
        p': "parent_map m' = AList.update (upstream info)
               (children_of (parent_map m) (upstream info) @ [b]) (parent_map m)"
        by (auto simp: build_step_def getitem_def Let_def)
      have "fst ` set (parent_map m') = insert (upstream info) (fst ` set (parent_map m))"
        unfolding p' by (simp only: dom_update) simp
      with r r' hp show ?thesis by auto
    qed
  qed
qed

lemma build_step_children:
  assumes s: "build_step env (roots, m) item = Inr (roots', m')"
    and bi: "branches_info m = bi"
  shows "set (children_of (parent_map m) q) \<subseteq> set (children_of (parent_map m') q)"
    and "item = (c, Some info) \<Longrightarrow>
           c \<in> set (children_of (parent_map m') (resolved_parent env bi c info))"
proof -
  obtain b i where item: "item = (b, i)" by (cases item)
  show "set (children_of (parent_map m) q) \<subseteq> set (children_of (parent_map m') q)"
    using s item
    by (auto simp: build_step_def Let_def children_of_update
          split: option.splits sum.splits if_splits)
  show "c \<in> set (children_of (parent_map m') (resolved_parent env bi c info))"
    if "item = (c, Some info)"
    using s that bi
    by (auto simp: build_step_def getitem_def Let_def children_of_update resolved_parent_def
          split: option.splits if_splits)
qed

lemma build_loop_parents:
  assumes "build_loop env (roots, m) items = Inr (roots', m')"
    and "branches_info m = bi"
    and "list_all (\<lambda>(b, i). case i of
                 None \<Rightarrow> True
               | Some info \<Rightarrow>
                   map_of bi (upstream info) = Some None \<longrightarrow>
                   truthy (git_upstream env b) \<longrightarrow>
                   \<not> has_info bi (the (git_upstream env b))) items"
    and "set roots = {p \<in> fst ` set (parent_map m). \<not> has_info bi p}"
  shows "set roots' = {p \<in> fst ` set (parent_map m'). \<not> has_info bi p}
    \<and> (\<forall>q. set (children_of (parent_map m) q) \<subseteq> set (children_of (parent_map m') q))
    \<and> (\<forall>c info. (c, Some info) \<in> set items \<longrightarrow>
          c \<in> set (children_of (parent_map m') (resolved_parent env bi c info)))"
  using assms
proof (induction items arbitrary: roots m)
  case Nil
  then show ?case by simp
next
  case (Cons item items)
  from Cons.prems(1) obtain r1 m1 where
    s: "build_step env (roots, m) item = Inr (r1, m1)" and
    l: "build_loop env (r1, m1) items = Inr (roots', m')"
    by (auto split: sum.splits)
  from Cons.prems(3) have h: "case item of (b, i) \<Rightarrow>
              (case i of
                 None \<Rightarrow> True
               | Some info \<Rightarrow>
                   map_of bi (upstream info) = Some None \<longrightarrow>
                   truthy (git_upstream env b) \<longrightarrow>
                   \<not> has_info bi (the (git_upstream env b)))"
    and hs: "list_all (\<lambda>(b, i). case i of
                 None \<Rightarrow> True
               | Some info \<Rightarrow>
                   map_of bi (upstream info) = Some None \<longrightarrow>
                   truthy (git_upstream env b) \<longrightarrow>
                   \<not> has_info bi (the (git_upstream env b))) items"
    by simp_all
  have bi1: "branches_info m1 = bi"
    using build_step_keeps[OF s] Cons.prems(2) by simp
  note r1 = build_step_roots[OF s Cons.prems(2) h Cons.prems(4)]
  note c1 = build_step_children[OF s Cons.prems(2)]
  from Cons.IH[OF l bi1 hs r1] have
    ih1: "set roots' = {p \<in> fst ` set (parent_map m'). \<not> has_info bi p}" and
    ih2: "\<forall>q. set (children_of (parent_map m1) q) \<subseteq> set (children_of (parent_map m') q)" and
    ih3: "\<forall>c info. (c, Some info) \<in> set items \<longrightarrow>
          c \<in> set (children_of (parent_map m') (resolved_parent env bi c info))"
    by simp_all
  have "\<forall>q. set (children_of (parent_map m) q) \<subseteq> set (children_of (parent_map m') q)"
    using c1(1) ih2 by blast
  moreover have "\<forall>c info. (c, Some info) \<in> set (item # items) \<longrightarrow>
          c \<in> set (children_of (parent_map m') (resolved_parent env bi c info))"
    using c1(2) ih2 ih3 by auto
  ultimately show ?case using ih1 by simp
qed

subsection \<open>Counting the visits\<close>

lemma count_split:
  assumes eq: "mset V + mset R = mset X" and dX: "distinct X"
  shows "distinct V" and "set V \<subseteq> set X" and "\<forall>x \<in> set X. x \<in> set V \<longleftrightarrow> x \<notin> set R"
proof -
  have c: "count (mset V) a + count (mset R) a = count (mset X) a" for a
    using arg_cong[OF eq, of "\<lambda>M. count M a"] by simp
  have x1: "count (mset X) a = 1" if "a \<in> set X" for a
    using dX that by (simp add: distinct_count_atmost_1)
  have x0: "count (mset X) a = 0" if "a \<notin> set X" for a
    using that by simp
  have le: "count (mset V) a + count (mset R) a \<le> 1" for a
  proof (cases "a \<in> set X")
    case True
    from x1[OF True] c[of a] show ?thesis by linarith
  next
    case False
    from x0[OF False] c[of a] show ?thesis by linarith
  qed
  have nz: "count (mset V) a \<noteq> 0" if "a \<in> set V" for a
    using that count_mset_0_iff[of V a] by blast
  have nzR: "count (mset R) a \<noteq> 0" if "a \<in> set R" for a
    using that count_mset_0_iff[of R a] by blast
  have v: "count (mset V) a = (if a \<in> set V then 1 else 0)" for a
  proof (cases "a \<in> set V")
    case True
    from nz[OF True] le[of a] have "count (mset V) a = 1" by linarith
    with True show ?thesis by simp
  next
    case False
    then show ?thesis by simp
  qed
  show "distinct V" using v by (simp add: distinct_count_atmost_1)
  show "set V \<subseteq> set X"
  proof
    fix a assume "a \<in> set V"
    from nz[OF this] c[of a] have "count (mset X) a \<noteq> 0" by linarith
    then show "a \<in> set X" using x0[of a] by auto
  qed
  show "\<forall>x \<in> set X. x \<in> set V \<longleftrightarrow> x \<notin> set R"
  proof
    fix a assume a: "a \<in> set X"
    show "a \<in> set V \<longleftrightarrow> a \<notin> set R"
    proof
      assume "a \<in> set V"
      from nz[OF this] le[of a] have "count (mset R) a = 0" by linarith
      then show "a \<notin> set R" using nzR[of a] by auto
    next
      assume "a \<notin> set R"
      then have "count (mset R) a = 0" by simp
      with c[of a] x1[OF a] have "count (mset V) a \<noteq> 0" by linarith
      then show "a \<in> set V" using count_mset_0_iff[of V a] by auto
    qed
  qed
qed

lemma filter_children:
  assumes "distinct (all_children pm)" and "(p, cs) \<in> set pm" and "c \<in> set cs"
  shows "c \<in> set (all_children (filter (\<lambda>e. fst e \<notin> S) pm)) \<longleftrightarrow> p \<notin> S"
  using assms
proof (induction pm)
  case Nil
  then show ?case by simp
next
  case (Cons e pm)
  obtain q ds where e: "e = (q, ds)" by (cases e)
  from Cons.prems(1) e have dis: "set ds \<inter> set (all_children pm) = {}"
    and d: "distinct (all_children pm)"
    by (simp_all add: all_children_def)
  have sub: "set (all_children (filter (\<lambda>e. fst e \<notin> S) pm)) \<subseteq> set (all_children pm)"
    by (auto simp: all_children_def)
  show ?case
  proof (cases "(p, cs) = (q, ds)")
    case True
    with Cons.prems(3) dis sub have "c \<notin> set (all_children (filter (\<lambda>e. fst e \<notin> S) pm))"
      by auto
    with True e Cons.prems(3) show ?thesis by (auto simp: all_children_def)
  next
    case False
    with Cons.prems(2) e have m: "(p, cs) \<in> set pm" by auto
    then have "c \<in> set (all_children pm)"
      using Cons.prems(3) by (force simp: all_children_def)
    with dis have "c \<notin> set ds" by auto
    with Cons.IH[OF d m Cons.prems(3)] e show ?thesis by (auto simp: all_children_def)
  qed
qed

lemma children_of_entry:
  "c \<in> set (children_of pm p) \<Longrightarrow> \<exists>cs. (p, cs) \<in> set pm \<and> c \<in> set cs"
  by (cases "map_of pm p") (auto simp: children_of_def dest: map_of_SomeD)

lemma local_names_has_info:
  assumes "distinct (map fst bi)" and "n \<in> set (local_names bi)"
  shows "has_info bi n"
proof -
  from assms(2) obtain info where "(n, Some info) \<in> set bi"
    by (auto simp: local_names_def)
  with assms(1) have "map_of bi n = Some (Some info)" by simp
  then show ?thesis by (simp add: has_info_iff)
qed

lemma distinct_local_names: "distinct (map fst bi) \<Longrightarrow> distinct (local_names bi)"
  by (simp add: local_names_def distinct_map_filter)

text \<open>The traversal of a forest whose roots are not children.\<close>

lemma forest_rows:
  assumes t: "append_branches env m0 (sort roots) 0 = Inr m"
    and v0: "visited m0 = []"
    and dk: "distinct (map fst (parent_map m0))"
    and dr: "distinct roots"
    and dl: "distinct locals"
    and ch: "mset (all_children (parent_map m0)) = mset locals"
    and ex: "set roots \<inter> set locals = {}"
  shows "distinct (map fst (visited m))"
    and "set (map fst (visited m)) \<subseteq> set roots \<union> set locals"
    and "set roots \<subseteq> set (map fst (visited m))"
    and "\<forall>p c. c \<in> set (children_of (parent_map m0) p) \<longrightarrow>
           (c \<in> set (map fst (visited m)) \<longleftrightarrow> p \<in> set (map fst (visited m)))"
proof -
  let ?V = "map fst (visited m)"
  let ?S = "fst ` set (visited m)"
  let ?R = "all_children (parent_map m)"
  from traversal_trace(2)[OF dk t] v0 have
    pm: "parent_map m = filter (\<lambda>e. fst e \<notin> ?S) (parent_map m0)" and
    eq0: "mset ?V + mset ?R = mset (sort roots) + mset (all_children (parent_map m0))"
    by auto
  have eq: "mset ?V + mset ?R = mset (roots @ locals)"
    using eq0 ch by simp
  have dX: "distinct (roots @ locals)"
    using dr dl ex by simp
  note cs = count_split[OF eq dX]
  show "distinct ?V" by (rule cs(1))
  show "set ?V \<subseteq> set roots \<union> set locals" using cs(2) by simp
  have dc: "distinct (all_children (parent_map m0))"
    using ch dl by (metis mset_eq_imp_distinct_iff)
  have sc: "set (all_children (parent_map m0)) = set locals"
    using ch by (metis set_mset_mset)
  have sub: "set ?R \<subseteq> set locals"
    unfolding pm using sc by (auto simp: all_children_def)
  show "set roots \<subseteq> set ?V"
  proof
    fix r assume r: "r \<in> set roots"
    with ex sub have "r \<notin> set ?R" by auto
    with cs(3) r show "r \<in> set ?V" by simp
  qed
  show "\<forall>p c. c \<in> set (children_of (parent_map m0) p) \<longrightarrow> (c \<in> set ?V \<longleftrightarrow> p \<in> set ?V)"
  proof (intro allI impI)
    fix p c assume c: "c \<in> set (children_of (parent_map m0) p)"
    from children_of_entry[OF c] obtain cs' where
      e: "(p, cs') \<in> set (parent_map m0)" "c \<in> set cs'" by blast
    then have "c \<in> set (all_children (parent_map m0))"
      by (force simp: all_children_def)
    with sc have cx: "c \<in> set (roots @ locals)" by simp
    have "c \<in> set ?R \<longleftrightarrow> p \<notin> ?S"
      unfolding pm by (rule filter_children[OF dc e])
    with cs(3) cx show "c \<in> set ?V \<longleftrightarrow> p \<in> set ?V" by simp
  qed
qed

lemma sentinel_appended:
  "OutputManager_append (OutputManager_init\<lparr>nocolor := nc\<rparr>) no_branches = Inr om \<Longrightarrow>
     lines om = [if nc then blank no_branches else no_branches]"
  by (auto simp: OutputManager_append_def OutputManager_init_def no_branches_def blank_def
        Let_def split: if_splits sum.splits)

lemma visited_bounded:
  assumes "distinct (map fst (parent_map m))" and "append_branches env m bs depth = Inr m'"
  shows "length (visited m') \<le> length (visited m) + length bs + length (all_children (parent_map m))"
proof -
  from traversal_trace(2)[OF assms] obtain new where
    v: "visited m' = visited m @ new" and
    c: "mset (map fst new) + mset (all_children (parent_map m'))
          = mset bs + mset (all_children (parent_map m))"
    by blast
  from arg_cong[OF c, of size] have "length new \<le> length bs + length (all_children (parent_map m))"
    by simp
  with v show ?thesis by simp
qed

text \<open>
  C1, as the code has it. Take a bulk mapping with distinct keys, on which the run
  completes and the single-branch lookup never answers a local branch. In the forest that
  the builder leaves, every local branch is the child of exactly one parent, the parent
  chosen for it, and the roots are exactly the parents without a non-empty entry. The
  names with a row are exactly those reached from a root, each with one row: so every
  local branch whose chain of parents leads to a name without an entry has its row, and
  a set of names that holds no root and the parent of each of its members, a tracking
  cycle with all that is stacked on it, has none. The rows are those of the visited nodes
  in order, and when there is no root, for an empty mapping in particular, the table is
  the one row \<^verbatim>\<open>No User Branches\<close>.
\<close>

theorem one_row_per_reached_branch:
  assumes bi: "bi = git_branches_info env (1 \<le> v)"
    and d: "distinct (map fst bi)"
    and h: "live_parents_external env bi"
    and s: "start env (mapper_of_opts v nc mj ss) = Inr m"
  shows "\<exists>roots pm.
      (\<exists>si m1. build_loop env
                  ([], (mapper_of_opts v nc mj ss)\<lparr>branches_info := bi, status_info := si\<rparr>) bi
                = Inr (roots, m1) \<and> parent_map m1 = pm)
    \<and> mset (all_children pm) = mset (local_names bi)
    \<and> (\<forall>c info. (c, Some info) \<in> set bi \<longrightarrow>
          c \<in> set (children_of pm (resolved_parent env bi c info)))
    \<and> set roots = {p \<in> fst ` set pm. \<not> has_info bi p}
    \<and> (\<forall>r \<in> set roots. \<not> has_info bi r)
    \<and> distinct (map fst (visited m))
    \<and> set (map fst (visited m)) = {n. reached pm roots n}
    \<and> (\<forall>S. S \<inter> set roots = {}
            \<and> (\<forall>p c. c \<in> S \<longrightarrow> c \<in> set (children_of pm p) \<longrightarrow> p \<in> S)
          \<longrightarrow> S \<inter> set (map fst (visited m)) = {})
    \<and> set (map fst (visited m)) \<subseteq> set roots \<union> set (local_names bi)
    \<and> set roots \<subseteq> set (map fst (visited m))
    \<and> (\<forall>p c. c \<in> set (children_of pm p) \<longrightarrow>
           (c \<in> set (map fst (visited m)) \<longleftrightarrow> p \<in> set (map fst (visited m))))
    \<and> (if roots = []
        then lines (output_manager m) = [if nc then blank no_branches else no_branches]
        else names_match_rows m)
    \<and> (bi = [] \<longrightarrow> roots = [])"
proof (cases env "mapper_of_opts v nc mj ss" rule: start_cases)
  case (early e)
  with s show ?thesis by simp
next
  case (built si roots m1 head)
  let ?m0 = "mapper_of_opts v nc mj ss"
  let ?V = "map fst (visited m)"
  have v0: "verbosity ?m0 = v" by (simp add: mapper_of_opts_def BranchMapper_init_def)
  have b: "build_loop env ([], ?m0\<lparr>branches_info := bi, status_info := si\<rparr>) bi = Inr (roots, m1)"
    using built(1) bi v0 by simp
  have h': "list_all (\<lambda>(b, i). case i of
                 None \<Rightarrow> True
               | Some info \<Rightarrow>
                   map_of bi (upstream info) = Some None \<longrightarrow>
                   truthy (git_upstream env b) \<longrightarrow>
                   \<not> has_info bi (the (git_upstream env b))) bi"
    using h by (simp add: live_parents_external_def)
  have f: "distinct (map fst (parent_map m1)) \<and> distinct roots
    \<and> (\<forall>r \<in> set roots. \<not> has_info bi r)
    \<and> mset (all_children (parent_map m1))
           = mset (all_children (parent_map (?m0\<lparr>branches_info := bi, status_info := si\<rparr>)))
             + mset (local_names bi)"
    by (rule build_loop_forest[OF b _ h'])
       (simp_all add: mapper_of_opts_def BranchMapper_init_def)
  then have f1: "distinct (map fst (parent_map m1))" and f2: "distinct roots"
    and f3: "\<forall>r \<in> set roots. \<not> has_info bi r"
    and f4: "mset (all_children (parent_map m1)) = mset (local_names bi)"
    by (simp_all add: mapper_of_opts_def BranchMapper_init_def all_children_def)
  have g: "set roots = {p \<in> fst ` set (parent_map m1). \<not> has_info bi p}
    \<and> (\<forall>q. set (children_of (parent_map (?m0\<lparr>branches_info := bi, status_info := si\<rparr>)) q)
            \<subseteq> set (children_of (parent_map m1) q))
    \<and> (\<forall>c info. (c, Some info) \<in> set bi \<longrightarrow>
          c \<in> set (children_of (parent_map m1) (resolved_parent env bi c info)))"
    by (rule build_loop_parents[OF b _ h'])
       (simp_all add: mapper_of_opts_def BranchMapper_init_def)
  then have g1: "set roots = {p \<in> fst ` set (parent_map m1). \<not> has_info bi p}"
    and g2: "\<forall>c info. (c, Some info) \<in> set bi \<longrightarrow>
          c \<in> set (children_of (parent_map m1) (resolved_parent env bi c info))"
    by simp_all
  from build_loop_keeps[OF b] have
    k: "output_manager m1 = OutputManager_init\<lparr>nocolor := nc\<rparr>" "visited m1 = []"
    by (simp_all add: mapper_of_opts_def BranchMapper_init_def)
  have e: "bi = [] \<longrightarrow> roots = []"
    using b by auto
  have ex: "set roots \<inter> set (local_names bi) = {}"
    using f3 local_names_has_info[OF d] by auto
  let ?m2 = "m1\<lparr>current_branch := git_current_branch env, current_hash := head,
                 tag_set := git_tags env\<rparr>"
  have "\<exists>mt. append_branches env ?m2 (sort roots) 0 = Inr mt \<and> visited m = visited mt
          \<and> (if roots = []
              then lines (output_manager m) = [if nc then blank no_branches else no_branches]
              else names_match_rows m)"
  proof (cases "roots = []")
    case True
    with built(3) s obtain om where
      om: "OutputManager_append (output_manager m1) no_branches = Inr om"
      and m: "m = ?m2\<lparr>output_manager := om\<rparr>"
      by (auto split: sum.splits)
    from om k have "lines om = [if nc then blank no_branches else no_branches]"
      using sentinel_appended[of nc om] by simp
    with m True show ?thesis by simp
  next
    case False
    with built(3) s have t: "append_branches env ?m2 (sort roots) 0 = Inr m" by simp
    have r: "names_match_rows ?m2"
      using k by (simp add: names_match_rows_def OutputManager_init_def)
    from traversal_rows(2)[OF r t] t False show ?thesis by simp
  qed
  then obtain mt where t: "append_branches env ?m2 (sort roots) 0 = Inr mt"
    and vm: "visited m = visited mt"
    and rows: "if roots = []
              then lines (output_manager m) = [if nc then blank no_branches else no_branches]
              else names_match_rows m"
    by blast
  note fr = forest_rows[OF t _ _ f2 distinct_local_names[OF d] _ ex, simplified, OF k(2) f1 f4,
      folded vm]
  have sub: "set ?V \<subseteq> {n. reached (parent_map m1) roots n}"
  proof
    fix n assume "n \<in> set ?V"
    then have "n \<in> fst ` set (visited mt)" using vm by simp
    with traversal_reached(2)[of ?m2 env "sort roots" 0 mt] f1 t k(2)
    have "reached (parent_map m1) (sort roots) n" by auto
    then have "reached (parent_map m1) roots n"
      by (rule reached_mono) (auto intro: reached.root)
    then show "n \<in> {n. reached (parent_map m1) roots n}" by simp
  qed
  have sup: "n \<in> set ?V" if "reached (parent_map m1) roots n" for n
    using that
  proof (induction rule: reached.induct)
    case (root r)
    with fr(3) show ?case by auto
  next
    case (child p c)
    with fr(4) show ?case by auto
  qed
  have eq: "set ?V = {n. reached (parent_map m1) roots n}"
    using sub sup by blast
  have miss: "\<forall>S. S \<inter> set roots = {}
            \<and> (\<forall>p c. c \<in> S \<longrightarrow> c \<in> set (children_of (parent_map m1) p) \<longrightarrow> p \<in> S)
          \<longrightarrow> S \<inter> set ?V = {}"
  proof (intro allI impI)
    fix S
    assume a: "S \<inter> set roots = {}
            \<and> (\<forall>p c. c \<in> S \<longrightarrow> c \<in> set (children_of (parent_map m1) p) \<longrightarrow> p \<in> S)"
    have "n \<notin> S" if "n \<in> set ?V" for n
    proof -
      from that sub have "reached (parent_map m1) roots n" by auto
      with a show ?thesis using reached_misses[of "parent_map m1" roots n S] by blast
    qed
    then show "S \<inter> set ?V = {}" by blast
  qed
  show ?thesis
  proof (intro exI[of _ roots] exI[of _ "parent_map m1"] conjI)
    show "\<exists>si m1'. build_loop env
                  ([], ?m0\<lparr>branches_info := bi, status_info := si\<rparr>) bi
                = Inr (roots, m1') \<and> parent_map m1' = parent_map m1"
      using b by blast
    show "mset (all_children (parent_map m1)) = mset (local_names bi)" by (rule f4)
    show "\<forall>c info. (c, Some info) \<in> set bi \<longrightarrow>
          c \<in> set (children_of (parent_map m1) (resolved_parent env bi c info))" by (rule g2)
    show "set roots = {p \<in> fst ` set (parent_map m1). \<not> has_info bi p}" by (rule g1)
    show "\<forall>r \<in> set roots. \<not> has_info bi r" by (rule f3)
    show "distinct ?V" using fr(1) by simp
    show "set ?V = {n. reached (parent_map m1) roots n}" by (rule eq)
    show "\<forall>S. S \<inter> set roots = {}
            \<and> (\<forall>p c. c \<in> S \<longrightarrow> c \<in> set (children_of (parent_map m1) p) \<longrightarrow> p \<in> S)
          \<longrightarrow> S \<inter> set ?V = {}" by (rule miss)
    show "set ?V \<subseteq> set roots \<union> set (local_names bi)" using fr(2) by simp
    show "set roots \<subseteq> set ?V" using fr(3) by simp
    show "\<forall>p c. c \<in> set (children_of (parent_map m1) p) \<longrightarrow>
           (c \<in> set ?V \<longleftrightarrow> p \<in> set ?V)" using fr(4) by simp
    show "if roots = []
        then lines (output_manager m) = [if nc then blank no_branches else no_branches]
        else names_match_rows m" by (rule rows)
    show "bi = [] \<longrightarrow> roots = []" by (rule e)
  qed
qed

theorem one_row_per_reached_branch_witness:
  "distinct (map fst (git_branches_info mixed_git (1 \<le> (0::nat))))
   \<and> live_parents_external mixed_git (git_branches_info mixed_git (1 \<le> (0::nat)))
   \<and> map_sum id (map fst \<circ> visited) (start mixed_git (mapper_of_opts 0 True None False))
       = Inr [''missing'', ''orphan'', ''origin/master'', ''feature'']
   \<and> main mixed_git 0 True None False
       = Inr (''{missing:GONE}'' @ [CHR 0x0A] @ ''  orphan'' @ [CHR 0x0A] @ ''origin/master''
              @ [CHR 0x0A] @ ''  feature *'')"
proof -
  have d: "distinct (map fst (git_branches_info mixed_git (1 \<le> (0::nat))))"
    by code_simp
  have h: "live_parents_external mixed_git (git_branches_info mixed_git (1 \<le> (0::nat)))"
    by code_simp
  have r: "map_sum id (map fst \<circ> visited) (start mixed_git (mapper_of_opts 0 True None False))
       = Inr [''missing'', ''orphan'', ''origin/master'', ''feature'']"
    by code_simp
  have o: "main mixed_git 0 True None False
       = Inr (''{missing:GONE}'' @ [CHR 0x0A] @ ''  orphan'' @ [CHR 0x0A] @ ''origin/master''
              @ [CHR 0x0A] @ ''  feature *'')"
    by code_simp
  from r obtain m where m: "start mixed_git (mapper_of_opts 0 True None False) = Inr m"
    by (cases "start mixed_git (mapper_of_opts 0 True None False)") simp_all
  from one_row_per_reached_branch[OF refl d h m] d h r o show ?thesis
    by simp
qed

text \<open>
  Two local branches that track each other are both omitted, and the sentinel row is
  printed although the mapping is not empty.
\<close>

theorem cycle_omitted_counterexample:
  "map fst (git_branches_info cyclic_git False) = [''a'', ''b'']
   \<and> main cyclic_git 0 True None False = Inr ''No User Branches''"
  by code_simp

end
